theory Spec2Isabelle
  imports Main "HOL-Library.Sublist"
begin

section \<open>The TapPostgres saga of the admin console\<close>

text \<open>
  The development embeds \<^verbatim>\<open>admin-console/app/containers/TapPage/TapPostgres/saga.js\<close>:
  the two worker generators \<^verbatim>\<open>getStreams\<close> and \<^verbatim>\<open>updateStreamToReplicate\<close>, the root saga
  \<^verbatim>\<open>tapPostgresData\<close> that registers them with \<^verbatim>\<open>takeLatest\<close>, and the part of the
  redux-saga middleware that runs them (the effects \<^verbatim>\<open>call\<close>, \<^verbatim>\<open>put\<close>, \<^verbatim>\<open>select\<close> and the
  helper \<^verbatim>\<open>takeLatest\<close>).
\<close>

subsection \<open>Values read from an action\<close>

text \<open>
  An action is a plain JavaScript object. The workers read \<^verbatim>\<open>action.targetId\<close>,
  \<^verbatim>\<open>action.tapId\<close> and \<^verbatim>\<open>action.streamId\<close> and interpolate them into a template literal,
  which applies the language's ToString conversion. A field that is absent reads as
  \<^verbatim>\<open>undefined\<close>. Any other value whose conversion returns normally (a number, an
  object) is \<open>JOther\<close>, given by the text the conversion returns. The values whose
  conversion throws (a symbol, an object whose \<^verbatim>\<open>toString\<close> throws) are not in the type:
  on them the workers fail while they build the URL, before the \<^verbatim>\<open>try\<close> block.
\<close>

datatype js_value = JUndefined | JNull | JBoolean bool | JString string | JOther string

fun ToString :: "js_value \<Rightarrow> string" where
  "ToString JUndefined = ''undefined''"
| "ToString JNull = ''null''"
| "ToString (JBoolean b) = (if b then ''true'' else ''false'')"
| "ToString (JString s) = s"
| "ToString (JOther s) = s"

text \<open>
  Modelled from the spec: \<^verbatim>\<open>./constants\<close> is not part of the sources at hand. The spec
  has two trigger kinds, distinct from each other and from the four terminal events;
  every other action type that travels on the store is \<open>OTHER\<close>.
\<close>

datatype action_type = LOAD_STREAMS | UPDATE_STREAM_TO_REPLICATE | OTHER string

text \<open>
  The action object. \<open>params\<close> is opaque to the saga (type \<open>'p\<close>); further properties
  of the object live in the record's extension slot.
\<close>

record 'p action =
  type :: action_type
  targetId :: js_value
  tapId :: js_value
  streamId :: js_value
  params :: 'p

text \<open>
  Modelled from the spec: \<^verbatim>\<open>./actions\<close> is not part of the sources at hand. The four
  action creators are kept as constructors applied to the value they are given: a
  payload \<open>'v\<close> the request resolved with, or an error \<open>'e\<close> it threw.
\<close>

datatype ('v, 'e) outcome =
    streamsLoaded 'v
  | streamsLoadedError 'e
  | updateStreamToReplicateDone 'v
  | updateStreamToReplicateError 'e

subsection \<open>The arguments of \<^verbatim>\<open>request\<close>\<close>

text \<open>
  \<^verbatim>\<open>request(url, options)\<close> is the HTTP collaborator (\<^verbatim>\<open>utils/request\<close>). The saga only
  builds its arguments: a URL and, for the update, an options object. The body is what
  \<^verbatim>\<open>JSON.stringify\<close> returns, of type \<open>'b\<close>. The encoder is a parameter of the model. In
  \<open>updateStreamToReplicate\<close> it is a total function: \<open>'p\<close> stands for the \<open>params\<close> it
  accepts, such as the spec's mapping of setting names to values. In
  \<open>updateStreamToReplicate_throwing\<close> it may throw, as the built-in does on a cyclic
  object or on a value that has no JSON form.
\<close>

record 'b request_options =
  http_method :: string
  headers :: "(string \<times> string) list"
  body :: 'b

record 'b request =
  url :: string
  options :: "'b request_options option"

text \<open>
  Modelled from the spec: \<^verbatim>\<open>utils/request\<close> is not part of the sources at hand. A call
  without options is a \<^verbatim>\<open>GET\<close> with no headers of the saga's own.
\<close>

definition request_method :: "'b request \<Rightarrow> string" where
  "request_method r = (case options r of None \<Rightarrow> ''GET'' | Some opts \<Rightarrow> http_method opts)"

definition request_headers :: "'b request \<Rightarrow> (string \<times> string) list" where
  "request_headers r = (case options r of None \<Rightarrow> [] | Some opts \<Rightarrow> headers opts)"

definition request_body :: "'b request \<Rightarrow> 'b option" where
  "request_body r = map_option body (options r)"

subsection \<open>Generators as effect trees\<close>

text \<open>
  A worker is a generator that yields effect descriptions to the middleware, which
  resumes it with a value or throws an error at the \<^verbatim>\<open>yield\<close>.
  \<^item> \<open>Call req k\<close>: \<^verbatim>\<open>yield call(request, ...)\<close>. The generator goes on as \<open>k (Inr v)\<close>
    when it is resumed with \<open>v\<close>, as \<open>k (Inl e)\<close> when \<open>e\<close> is thrown at the \<^verbatim>\<open>yield\<close>.
  \<^item> \<open>Put a k\<close>: \<^verbatim>\<open>yield put(a)\<close>. The generator goes on as \<open>k (Inr ())\<close> when it is
    resumed, as \<open>k (Inl e)\<close> when \<open>e\<close> is thrown at the \<^verbatim>\<open>yield\<close>.
  \<^item> \<open>Select k\<close>: \<^verbatim>\<open>yield select()\<close>; the generator goes on with the store state.
  \<^item> \<open>Return\<close>: the generator is done. \<open>Raise e\<close>: it ends with the uncaught error \<open>e\<close>.
\<close>

datatype ('b, 'v, 'e, 'st) saga =
    Return
  | Raise 'e
  | Call "'b request" "'e + 'v \<Rightarrow> ('b, 'v, 'e, 'st) saga"
  | Put "('v, 'e) outcome" "'e + unit \<Rightarrow> ('b, 'v, 'e, 'st) saga"
  | Select "'st \<Rightarrow> ('b, 'v, 'e, 'st) saga"

subsection \<open>The workers and the root saga\<close>

text \<open>
  In both workers the \<^verbatim>\<open>try\<close> block holds the call and the put of the success action,
  so an error thrown at either \<^verbatim>\<open>yield\<close> reaches the \<^verbatim>\<open>catch\<close> block; an error thrown
  at the \<^verbatim>\<open>yield\<close> of the \<^verbatim>\<open>catch\<close> block leaves the generator. The action creators are
  taken to return normally.
\<close>

definition getStreams :: "('p, 'x) action_scheme \<Rightarrow> ('b, 'v, 'e, 'st) saga" where
  "getStreams action =
     (let requestURL = ''http://localhost:5000/targets/'' @ ToString (targetId action)
                         @ ''/taps/'' @ ToString (tapId action) @ ''/streams'';
          catch = (\<lambda>err. Put (streamsLoadedError err)
                            (\<lambda>r. case r of Inr u \<Rightarrow> Return | Inl e \<Rightarrow> Raise e))
      in Call \<lparr>url = requestURL, options = None\<rparr>
           (\<lambda>r. case r of
                  Inr streams \<Rightarrow>
                    Put (streamsLoaded streams)
                      (\<lambda>r. case r of Inr u \<Rightarrow> Return | Inl err \<Rightarrow> catch err)
                | Inl err \<Rightarrow> catch err))"

definition updateStreamToReplicate ::
  "('p \<Rightarrow> 'b) \<Rightarrow> ('p, 'x) action_scheme \<Rightarrow> ('b, 'v, 'e, 'st) saga" where
  "updateStreamToReplicate JSON_stringify action =
     (let requestURL = ''http://localhost:5000/targets/'' @ ToString (targetId action)
                         @ ''/taps/'' @ ToString (tapId action)
                         @ ''/streams/'' @ ToString (streamId action);
          catch = (\<lambda>err. Put (updateStreamToReplicateError err)
                            (\<lambda>r. case r of Inr u \<Rightarrow> Return | Inl e \<Rightarrow> Raise e))
      in Call \<lparr>url = requestURL,
               options = Some \<lparr>http_method = ''PATCH'',
                                headers = [(''Content-Type'', ''application/json'')],
                                body = JSON_stringify (params action)\<rparr>\<rparr>
           (\<lambda>r. case r of
                  Inr response \<Rightarrow>
                    Put (updateStreamToReplicateDone response)
                      (\<lambda>r. case r of Inr u \<Rightarrow> Return | Inl err \<Rightarrow> catch err)
                | Inl err \<Rightarrow> catch err))"

text \<open>
  \<^verbatim>\<open>takeLatest(pattern, worker)\<close> registers a watcher: a pattern and the worker to fork
  for each matching action. The root saga registers two of them, in this order.
\<close>

type_synonym ('p, 'x, 'b, 'v, 'e, 'st) watcher =
  "action_type \<times> (('p, 'x) action_scheme \<Rightarrow> ('b, 'v, 'e, 'st) saga)"

definition takeLatest ::
  "action_type \<Rightarrow> (('p, 'x) action_scheme \<Rightarrow> ('b, 'v, 'e, 'st) saga)
     \<Rightarrow> ('p, 'x, 'b, 'v, 'e, 'st) watcher" where
  "takeLatest pattern worker = (pattern, worker)"

definition tapPostgresData :: "('p \<Rightarrow> 'b) \<Rightarrow> ('p, 'x, 'b, 'v, 'e, 'st) watcher list" where
  "tapPostgresData JSON_stringify =
     [takeLatest LOAD_STREAMS getStreams,
      takeLatest UPDATE_STREAM_TO_REPLICATE (updateStreamToReplicate JSON_stringify)]"

subsection \<open>The middleware\<close>

text \<open>
  Tasks are numbered in the order they are forked. The middleware keeps, for each
  watcher, the handle of the task it forked last (\<^verbatim>\<open>lastTask\<close> in \<^verbatim>\<open>takeLatest\<close>); for
  each task suspended at a \<^verbatim>\<open>call\<close>, its continuation; and four logs that only record
  what happened: the action each task was forked for, the requests issued, the actions
  put, and the errors that left a generator uncaught, each with the task it belongs to.
\<close>

type_synonym task_id = nat

record ('p, 'x, 'b, 'v, 'e, 'st) middleware =
  lastTask :: "nat \<Rightarrow> task_id option"
  blocked :: "task_id \<Rightarrow> ('e + 'v \<Rightarrow> ('b, 'v, 'e, 'st) saga) option"
  nextTask :: task_id
  origin :: "task_id \<Rightarrow> ('p, 'x) action_scheme option"
  requests :: "(task_id \<times> 'b request) list"
  emitted :: "(task_id \<times> ('v, 'e) outcome) list"
  uncaught :: "(task_id \<times> 'e) list"

definition init :: "('p, 'x, 'b, 'v, 'e, 'st) middleware" where
  "init = \<lparr>lastTask = (\<lambda>_. None), blocked = (\<lambda>_. None), nextTask = 0,
           origin = (\<lambda>_. None), requests = [], emitted = [], uncaught = []\<rparr>"

text \<open>
  \<open>advance g \<sigma>\<close> runs a generator until it halts: the actions it put on the way, and
  how it halted. At a \<^verbatim>\<open>call\<close> the generator waits: \<^verbatim>\<open>request\<close> returns a promise. At a
  \<^verbatim>\<open>put\<close> the middleware hands the action to the store and resumes the generator; here
  the dispatch returns normally, \<open>advance_throwing\<close> below is the middleware on a store
  whose dispatch may throw.
\<close>

datatype ('b, 'v, 'e, 'st) halt =
    Finished
  | Uncaught 'e
  | Waiting "'b request" "'e + 'v \<Rightarrow> ('b, 'v, 'e, 'st) saga"

primrec advance ::
  "('b, 'v, 'e, 'st) saga \<Rightarrow> 'st \<Rightarrow> ('v, 'e) outcome list \<times> ('b, 'v, 'e, 'st) halt" where
  "advance Return \<sigma> = ([], Finished)"
| "advance (Raise e) \<sigma> = ([], Uncaught e)"
| "advance (Call req k) \<sigma> = ([], Waiting req k)"
| "advance (Put a k) \<sigma> = (case advance (k (Inr ())) \<sigma> of (out, h) \<Rightarrow> (a # out, h))"
| "advance (Select k) \<sigma> = advance (k \<sigma>) \<sigma>"

text \<open>
  \<open>proceed t g \<sigma> s\<close> runs task \<open>t\<close> from \<open>g\<close>: its puts are appended to the log; if
  it waits at a \<^verbatim>\<open>call\<close> the request is issued (the middleware invokes \<^verbatim>\<open>request\<close> at
  once) and the continuation kept; an uncaught error is logged.
\<close>

definition proceed ::
  "task_id \<Rightarrow> ('b, 'v, 'e, 'st) saga \<Rightarrow> 'st
     \<Rightarrow> ('p, 'x, 'b, 'v, 'e, 'st) middleware \<Rightarrow> ('p, 'x, 'b, 'v, 'e, 'st) middleware" where
  "proceed t g \<sigma> s =
     (case advance g \<sigma> of (out, h) \<Rightarrow>
        s\<lparr>emitted := emitted s @ map (Pair t) out,
          requests := (case h of Waiting req k \<Rightarrow> requests s @ [(t, req)] | _ \<Rightarrow> requests s),
          blocked := (blocked s)(t := (case h of Waiting req k \<Rightarrow> Some k | _ \<Rightarrow> None)),
          uncaught := (case h of Uncaught e \<Rightarrow> uncaught s @ [(t, e)] | _ \<Rightarrow> uncaught s)\<rparr>)"

text \<open>
  Cancelling a task drops its continuation; the promise it waits for is left alone,
  and the generators have no \<^verbatim>\<open>finally\<close> block. Cancelling a finished task does nothing.
\<close>

definition cancel ::
  "task_id option \<Rightarrow> ('p, 'x, 'b, 'v, 'e, 'st) middleware \<Rightarrow> ('p, 'x, 'b, 'v, 'e, 'st) middleware" where
  "cancel h s = (case h of None \<Rightarrow> s | Some t \<Rightarrow> s\<lparr>blocked := (blocked s)(t := None)\<rparr>)"

text \<open>
  One round of the \<^verbatim>\<open>takeLatest\<close> loop of watcher number \<open>w\<close>, for an action that
  matched: \<^verbatim>\<open>if (lastTask) yield cancel(lastTask); lastTask = yield fork(worker, action)\<close>.
\<close>

definition takeLatest_round ::
  "nat \<Rightarrow> (('p, 'x) action_scheme \<Rightarrow> ('b, 'v, 'e, 'st) saga) \<Rightarrow> 'st \<Rightarrow> ('p, 'x) action_scheme
     \<Rightarrow> ('p, 'x, 'b, 'v, 'e, 'st) middleware \<Rightarrow> ('p, 'x, 'b, 'v, 'e, 'st) middleware" where
  "takeLatest_round w worker \<sigma> a s =
     (let s1 = cancel (lastTask s w) s;
          t = nextTask s1;
          s2 = proceed t (worker a) \<sigma> (s1\<lparr>nextTask := Suc t, origin := (origin s1)(t \<mapsto> a)\<rparr>)
      in s2\<lparr>lastTask := (lastTask s2)(w := Some t)\<rparr>)"

text \<open>An action dispatched to the store reaches the watchers in registration order.\<close>

fun deliver ::
  "nat \<Rightarrow> ('p, 'x, 'b, 'v, 'e, 'st) watcher list \<Rightarrow> 'st \<Rightarrow> ('p, 'x) action_scheme
     \<Rightarrow> ('p, 'x, 'b, 'v, 'e, 'st) middleware \<Rightarrow> ('p, 'x, 'b, 'v, 'e, 'st) middleware" where
  "deliver w [] \<sigma> a s = s"
| "deliver w ((pattern, worker) # ws) \<sigma> a s =
     deliver (Suc w) ws \<sigma> a
       (if type a = pattern then takeLatest_round w worker \<sigma> a s else s)"

text \<open>
  What can happen: the view dispatches an action, or the promise a task waits for
  settles (resolved \<open>Inr v\<close>, rejected \<open>Inl e\<close>). A settlement for a task that is not
  suspended (cancelled, or finished) is dropped. Each step sees the store state of the
  moment, \<open>\<sigma>\<close>.
\<close>

datatype ('p, 'x, 'v, 'e) event =
    Dispatch "('p, 'x) action_scheme"
  | Settle task_id "'e + 'v"

definition step ::
  "('p, 'x, 'b, 'v, 'e, 'st) watcher list \<Rightarrow> 'st \<times> ('p, 'x, 'v, 'e) event
     \<Rightarrow> ('p, 'x, 'b, 'v, 'e, 'st) middleware \<Rightarrow> ('p, 'x, 'b, 'v, 'e, 'st) middleware" where
  "step ws se s =
     (case se of
        (\<sigma>, Dispatch a) \<Rightarrow> deliver 0 ws \<sigma> a s
      | (\<sigma>, Settle t r) \<Rightarrow>
          (case blocked s t of None \<Rightarrow> s | Some k \<Rightarrow> proceed t (k r) \<sigma> s))"

fun run ::
  "('p, 'x, 'b, 'v, 'e, 'st) watcher list \<Rightarrow> ('st \<times> ('p, 'x, 'v, 'e) event) list
     \<Rightarrow> ('p, 'x, 'b, 'v, 'e, 'st) middleware \<Rightarrow> ('p, 'x, 'b, 'v, 'e, 'st) middleware" where
  "run ws [] s = s"
| "run ws (se # tr) s = run ws tr (step ws se s)"

subsection \<open>When the environment throws\<close>

text \<open>
  The definitions above are the saga with an encoder and a store that never throw.
  Those that follow lift both restrictions; the former are the case \<open>\<lambda>_. None\<close> and
  \<open>\<lambda>p. Inr (js p)\<close> of the latter (\<open>run_is_quiet_total_instance\<close> below).

  \<^verbatim>\<open>JSON.stringify(action.params)\<close> is evaluated inside the \<^verbatim>\<open>try\<close> block, while the
  arguments of \<^verbatim>\<open>call\<close> are built: when it throws, the \<^verbatim>\<open>catch\<close> block runs and no
  effect of the \<^verbatim>\<open>try\<close> block is yielded. The encoder returns \<open>Inl err\<close> when it throws
  \<open>err\<close>, \<open>Inr encoded\<close> otherwise.
\<close>

definition updateStreamToReplicate_throwing ::
  "('p \<Rightarrow> 'e + 'b) \<Rightarrow> ('p, 'x) action_scheme \<Rightarrow> ('b, 'v, 'e, 'st) saga" where
  "updateStreamToReplicate_throwing JSON_stringify action =
     (let requestURL = ''http://localhost:5000/targets/'' @ ToString (targetId action)
                         @ ''/taps/'' @ ToString (tapId action)
                         @ ''/streams/'' @ ToString (streamId action);
          catch = (\<lambda>err. Put (updateStreamToReplicateError err)
                            (\<lambda>r. case r of Inr u \<Rightarrow> Return | Inl e \<Rightarrow> Raise e))
      in case JSON_stringify (params action) of
           Inl err \<Rightarrow> catch err
         | Inr encoded \<Rightarrow>
             Call \<lparr>url = requestURL,
                   options = Some \<lparr>http_method = ''PATCH'',
                                    headers = [(''Content-Type'', ''application/json'')],
                                    body = encoded\<rparr>\<rparr>
               (\<lambda>r. case r of
                      Inr response \<Rightarrow>
                        Put (updateStreamToReplicateDone response)
                          (\<lambda>r. case r of Inr u \<Rightarrow> Return | Inl err \<Rightarrow> catch err)
                    | Inl err \<Rightarrow> catch err))"

definition tapPostgresData_throwing ::
  "('p \<Rightarrow> 'e + 'b) \<Rightarrow> ('p, 'x, 'b, 'v, 'e, 'st) watcher list" where
  "tapPostgresData_throwing JSON_stringify =
     [takeLatest LOAD_STREAMS getStreams,
      takeLatest UPDATE_STREAM_TO_REPLICATE (updateStreamToReplicate_throwing JSON_stringify)]"

text \<open>
  The store's dispatch is \<open>d\<close>: \<open>d a = Some e\<close> when dispatching \<open>a\<close> throws \<open>e\<close> (a
  reducer or a subscriber of the store throws). The action has been put all the same;
  the middleware then throws \<open>e\<close> at the \<^verbatim>\<open>yield\<close> of the put. This is what redux-saga
  does from version 1.0 on; before, a failing dispatch was logged and the generator
  resumed, which is \<open>d = (\<lambda>_. None)\<close>. The version in use is not part of the sources.
\<close>

primrec advance_throwing ::
  "(('v, 'e) outcome \<Rightarrow> 'e option) \<Rightarrow> ('b, 'v, 'e, 'st) saga \<Rightarrow> 'st
     \<Rightarrow> ('v, 'e) outcome list \<times> ('b, 'v, 'e, 'st) halt" where
  "advance_throwing d Return \<sigma> = ([], Finished)"
| "advance_throwing d (Raise e) \<sigma> = ([], Uncaught e)"
| "advance_throwing d (Call req k) \<sigma> = ([], Waiting req k)"
| "advance_throwing d (Put a k) \<sigma> =
     (case advance_throwing d (k (case d a of None \<Rightarrow> Inr () | Some e \<Rightarrow> Inl e)) \<sigma> of
        (out, h) \<Rightarrow> (a # out, h))"
| "advance_throwing d (Select k) \<sigma> = advance_throwing d (k \<sigma>) \<sigma>"

text \<open>
  The workers are attached forks: an error that leaves a generator uncaught ends the
  watcher that forked it and the root saga, which cancels every task. From then on the
  saga reacts to nothing.
\<close>

definition proceed_throwing ::
  "(('v, 'e) outcome \<Rightarrow> 'e option) \<Rightarrow> task_id \<Rightarrow> ('b, 'v, 'e, 'st) saga \<Rightarrow> 'st
     \<Rightarrow> ('p, 'x, 'b, 'v, 'e, 'st) middleware \<Rightarrow> ('p, 'x, 'b, 'v, 'e, 'st) middleware" where
  "proceed_throwing d t g \<sigma> s =
     (case advance_throwing d g \<sigma> of (out, h) \<Rightarrow>
        s\<lparr>emitted := emitted s @ map (Pair t) out,
          requests := (case h of Waiting req k \<Rightarrow> requests s @ [(t, req)] | _ \<Rightarrow> requests s),
          blocked := (case h of Waiting req k \<Rightarrow> (blocked s)(t := Some k)
                      | Finished \<Rightarrow> (blocked s)(t := None)
                      | Uncaught e \<Rightarrow> (\<lambda>_. None)),
          uncaught := (case h of Uncaught e \<Rightarrow> uncaught s @ [(t, e)] | _ \<Rightarrow> uncaught s)\<rparr>)"

definition takeLatest_round_throwing ::
  "(('v, 'e) outcome \<Rightarrow> 'e option) \<Rightarrow> nat
     \<Rightarrow> (('p, 'x) action_scheme \<Rightarrow> ('b, 'v, 'e, 'st) saga) \<Rightarrow> 'st \<Rightarrow> ('p, 'x) action_scheme
     \<Rightarrow> ('p, 'x, 'b, 'v, 'e, 'st) middleware \<Rightarrow> ('p, 'x, 'b, 'v, 'e, 'st) middleware" where
  "takeLatest_round_throwing d w worker \<sigma> a s =
     (let s1 = cancel (lastTask s w) s;
          t = nextTask s1;
          s2 = proceed_throwing d t (worker a) \<sigma>
                 (s1\<lparr>nextTask := Suc t, origin := (origin s1)(t \<mapsto> a)\<rparr>)
      in s2\<lparr>lastTask := (lastTask s2)(w := Some t)\<rparr>)"

fun deliver_throwing ::
  "(('v, 'e) outcome \<Rightarrow> 'e option) \<Rightarrow> nat \<Rightarrow> ('p, 'x, 'b, 'v, 'e, 'st) watcher list \<Rightarrow> 'st
     \<Rightarrow> ('p, 'x) action_scheme
     \<Rightarrow> ('p, 'x, 'b, 'v, 'e, 'st) middleware \<Rightarrow> ('p, 'x, 'b, 'v, 'e, 'st) middleware" where
  "deliver_throwing d w [] \<sigma> a s = s"
| "deliver_throwing d w ((pattern, worker) # ws) \<sigma> a s =
     deliver_throwing d (Suc w) ws \<sigma> a
       (if uncaught s = [] \<and> type a = pattern
        then takeLatest_round_throwing d w worker \<sigma> a s else s)"

definition step_throwing ::
  "(('v, 'e) outcome \<Rightarrow> 'e option) \<Rightarrow> ('p, 'x, 'b, 'v, 'e, 'st) watcher list
     \<Rightarrow> 'st \<times> ('p, 'x, 'v, 'e) event
     \<Rightarrow> ('p, 'x, 'b, 'v, 'e, 'st) middleware \<Rightarrow> ('p, 'x, 'b, 'v, 'e, 'st) middleware" where
  "step_throwing d ws se s =
     (if uncaught s = []
      then (case se of
              (\<sigma>, Dispatch a) \<Rightarrow> deliver_throwing d 0 ws \<sigma> a s
            | (\<sigma>, Settle t r) \<Rightarrow>
                (case blocked s t of None \<Rightarrow> s | Some k \<Rightarrow> proceed_throwing d t (k r) \<sigma> s))
      else s)"

fun run_throwing ::
  "(('v, 'e) outcome \<Rightarrow> 'e option) \<Rightarrow> ('p, 'x, 'b, 'v, 'e, 'st) watcher list
     \<Rightarrow> ('st \<times> ('p, 'x, 'v, 'e) event) list
     \<Rightarrow> ('p, 'x, 'b, 'v, 'e, 'st) middleware \<Rightarrow> ('p, 'x, 'b, 'v, 'e, 'st) middleware" where
  "run_throwing d ws [] s = s"
| "run_throwing d ws (se # tr) s = run_throwing d ws tr (step_throwing d ws se s)"

subsection \<open>Vocabulary of the statements\<close>

text \<open>The actions a task has put so far.\<close>

definition outcomes_of ::
  "task_id \<Rightarrow> ('p, 'x, 'b, 'v, 'e, 'st) middleware \<Rightarrow> ('v, 'e) outcome list" where
  "outcomes_of t s = map snd (filter (\<lambda>p. fst p = t) (emitted s))"

text \<open>The requests that dispatching \<open>a\<close> in state \<open>s\<close> adds to the log.\<close>

definition issued ::
  "('p, 'x, 'b, 'v, 'e, 'st) watcher list \<Rightarrow> 'st \<Rightarrow> ('p, 'x) action_scheme
     \<Rightarrow> ('p, 'x, 'b, 'v, 'e, 'st) middleware \<Rightarrow> 'b request list" where
  "issued ws \<sigma> a s = map snd (drop (length (requests s)) (requests (step ws (\<sigma>, Dispatch a) s)))"

definition issued_throwing ::
  "(('v, 'e) outcome \<Rightarrow> 'e option) \<Rightarrow> ('p, 'x, 'b, 'v, 'e, 'st) watcher list \<Rightarrow> 'st
     \<Rightarrow> ('p, 'x) action_scheme
     \<Rightarrow> ('p, 'x, 'b, 'v, 'e, 'st) middleware \<Rightarrow> 'b request list" where
  "issued_throwing d ws \<sigma> a s =
     map snd (drop (length (requests s)) (requests (step_throwing d ws (\<sigma>, Dispatch a) s)))"

text \<open>
  The terminal event the spec expects of a task forked for a trigger of kind \<open>K\<close> whose
  call settled with \<open>r\<close>.
\<close>

definition terminal_event :: "action_type \<Rightarrow> 'e + 'v \<Rightarrow> ('v, 'e) outcome" where
  "terminal_event K r =
     (if K = LOAD_STREAMS
      then (case r of Inr p \<Rightarrow> streamsLoaded p | Inl e \<Rightarrow> streamsLoadedError e)
      else (case r of Inr p \<Rightarrow> updateStreamToReplicateDone p
            | Inl e \<Rightarrow> updateStreamToReplicateError e))"

text \<open>
  \<open>spares K t tr\<close>: the events of \<open>tr\<close> dispatch no action of type \<open>K\<close> and do not
  settle the call of task \<open>t\<close>.
\<close>

fun spares :: "action_type \<Rightarrow> task_id \<Rightarrow> ('st \<times> ('p, 'x, 'v, 'e) event) list \<Rightarrow> bool" where
  "spares K t [] = True"
| "spares K t ((\<sigma>, Dispatch a) # tr) = (type a \<noteq> K \<and> spares K t tr)"
| "spares K t ((\<sigma>, Settle u r) # tr) = (u \<noteq> t \<and> spares K t tr)"

subsection \<open>Vocabulary of the proofs\<close>

text \<open>
  The two workers, cut at their \<^verbatim>\<open>yield call\<close>: the request each builds, the rest of
  the generator after the call, and the action that rest puts.
\<close>

definition after_load :: "'e + 'v \<Rightarrow> ('b, 'v, 'e, 'st) saga" where
  "after_load r =
     (case r of
        Inr streams \<Rightarrow>
          Put (streamsLoaded streams)
            (\<lambda>r. case r of Inr u \<Rightarrow> Return
                  | Inl err \<Rightarrow> Put (streamsLoadedError err)
                                (\<lambda>r. case r of Inr u \<Rightarrow> Return | Inl e \<Rightarrow> Raise e))
      | Inl err \<Rightarrow> Put (streamsLoadedError err)
                    (\<lambda>r. case r of Inr u \<Rightarrow> Return | Inl e \<Rightarrow> Raise e))"

definition after_update :: "'e + 'v \<Rightarrow> ('b, 'v, 'e, 'st) saga" where
  "after_update r =
     (case r of
        Inr response \<Rightarrow>
          Put (updateStreamToReplicateDone response)
            (\<lambda>r. case r of Inr u \<Rightarrow> Return
                  | Inl err \<Rightarrow> Put (updateStreamToReplicateError err)
                                (\<lambda>r. case r of Inr u \<Rightarrow> Return | Inl e \<Rightarrow> Raise e))
      | Inl err \<Rightarrow> Put (updateStreamToReplicateError err)
                    (\<lambda>r. case r of Inr u \<Rightarrow> Return | Inl e \<Rightarrow> Raise e))"

definition load_request :: "('p, 'x) action_scheme \<Rightarrow> 'b request" where
  "load_request a = \<lparr>url = ''http://localhost:5000/targets/'' @ ToString (targetId a)
                  @ ''/taps/'' @ ToString (tapId a) @ ''/streams'', options = None\<rparr>"

definition update_request :: "('p \<Rightarrow> 'b) \<Rightarrow> ('p, 'x) action_scheme \<Rightarrow> 'b request" where
  "update_request js a = \<lparr>url = ''http://localhost:5000/targets/'' @ ToString (targetId a)
                  @ ''/taps/'' @ ToString (tapId a) @ ''/streams/'' @ ToString (streamId a),
       options = Some \<lparr>http_method = ''PATCH'',
                                headers = [(''Content-Type'', ''application/json'')],
                                body = js (params a)\<rparr>\<rparr>"

definition load_outcome :: "'e + 'v \<Rightarrow> ('v, 'e) outcome" where
  "load_outcome r = (case r of Inr streams \<Rightarrow> streamsLoaded streams | Inl err \<Rightarrow> streamsLoadedError err)"

definition update_outcome :: "'e + 'v \<Rightarrow> ('v, 'e) outcome" where
  "update_outcome r = (case r of Inr response \<Rightarrow> updateStreamToReplicateDone response
                       | Inl err \<Rightarrow> updateStreamToReplicateError err)"

text \<open>The same, by the number of the watcher: 0 loads, 1 updates.\<close>

definition pat :: "nat \<Rightarrow> action_type" where
  "pat w = (if w = 0 then LOAD_STREAMS else UPDATE_STREAM_TO_REPLICATE)"

definition kont :: "nat \<Rightarrow> 'e + 'v \<Rightarrow> ('b, 'v, 'e, 'st) saga" where
  "kont w = (if w = 0 then after_load else after_update)"

definition result :: "nat \<Rightarrow> 'e + 'v \<Rightarrow> ('v, 'e) outcome" where
  "result w = (if w = 0 then load_outcome else update_outcome)"

definition req_of :: "('p \<Rightarrow> 'b) \<Rightarrow> nat \<Rightarrow> ('p, 'x) action_scheme \<Rightarrow> 'b request" where
  "req_of js w a = (if w = 0 then load_request a else update_request js a)"

text \<open>
  What holds of every state the middleware reaches: a suspended task has put nothing,
  was forked by the watcher of its action's type, is that watcher's last task and waits
  in that worker's continuation; task numbers from \<open>nextTask\<close> on are unused; a task
  has put at most one action; only triggers fork tasks; a watcher's last task was
  forked for the watcher's pattern; and no generator has ended with an uncaught error.
\<close>

definition consistent :: "('p, 'x, 'b, 'v, 'e, 'st) middleware \<Rightarrow> bool" where
  "consistent s \<longleftrightarrow>
     (\<forall>t k. blocked s t = Some k \<longrightarrow>
        outcomes_of t s = [] \<and>
        (\<exists>a w. w < 2 \<and> origin s t = Some a \<and> type a = pat w \<and> k = kont w
                \<and> lastTask s w = Some t))
   \<and> (\<forall>t. nextTask s \<le> t \<longrightarrow> outcomes_of t s = [] \<and> origin s t = None \<and> blocked s t = None)
   \<and> (\<forall>t. length (outcomes_of t s) \<le> 1)
   \<and> (\<forall>t a. origin s t = Some a \<longrightarrow> (\<exists>w. w < 2 \<and> type a = pat w))
   \<and> (\<forall>w t. w < 2 \<longrightarrow> lastTask s w = Some t \<longrightarrow> (\<exists>a. origin s t = Some a \<and> type a = pat w))
   \<and> uncaught s = []"

text \<open>Every request in the log goes to the fixed base.\<close>

definition base_ok :: "('p, 'x, 'b, 'v, 'e, 'st) middleware \<Rightarrow> bool" where
  "base_ok s \<longleftrightarrow> (\<forall>p \<in> set (requests s). prefix ''http://localhost:5000'' (url (snd p)))"

text \<open>
  With a store that may throw: what a task puts after its terminal event (the error
  event of the \<^verbatim>\<open>catch\<close> block, when the dispatch of the success event threw), and the
  error its generator ends with, if any.
\<close>

definition halt_of :: "'e option \<Rightarrow> ('b, 'v, 'e, 'st) halt" where
  "halt_of x = (case x of None \<Rightarrow> Finished | Some e \<Rightarrow> Uncaught e)"

definition extra ::
  "(('v, 'e) outcome \<Rightarrow> 'e option) \<Rightarrow> nat \<Rightarrow> 'e + 'v \<Rightarrow> ('v, 'e) outcome list" where
  "extra d w r =
     (case r of
        Inl e \<Rightarrow> []
      | Inr p \<Rightarrow> (case d (result w r) of None \<Rightarrow> [] | Some e \<Rightarrow> [result w (Inl e)]))"

definition ending :: "(('v, 'e) outcome \<Rightarrow> 'e option) \<Rightarrow> nat \<Rightarrow> 'e + 'v \<Rightarrow> 'e option" where
  "ending d w r = d (last (result w r # extra d w r))"

text \<open>The request of watcher \<open>w\<close> goes out for \<open>a\<close>: the encoder, if used, does not throw.\<close>

definition goes_out ::
  "('p \<Rightarrow> 'e + 'b) \<Rightarrow> nat \<Rightarrow> ('p, 'x) action_scheme \<Rightarrow> 'b request \<Rightarrow> bool" where
  "goes_out je w a req \<longleftrightarrow>
     (w = 0 \<and> req = load_request a) \<or>
     (w = 1 \<and> (\<exists>b. je (params a) = Inr b \<and> req = update_request (\<lambda>_. b) a))"

text \<open>
  What holds of every state when the environment may throw, and what holds in addition
  when the store accepts every success event.
\<close>

definition sound :: "('p, 'x, 'b, 'v, 'e, 'st) middleware \<Rightarrow> bool" where
  "sound s \<longleftrightarrow>
     (\<forall>t k. blocked s t = Some k \<longrightarrow>
        outcomes_of t s = [] \<and>
        (\<exists>a w. w < 2 \<and> origin s t = Some a \<and> type a = pat w \<and> k = kont w
                \<and> lastTask s w = Some t))
   \<and> (\<forall>t. nextTask s \<le> t \<longrightarrow> outcomes_of t s = [] \<and> origin s t = None \<and> blocked s t = None)
   \<and> (\<forall>t a. origin s t = Some a \<longrightarrow> (\<exists>w. w < 2 \<and> type a = pat w))
   \<and> (\<forall>w t. w < 2 \<longrightarrow> lastTask s w = Some t \<longrightarrow> (\<exists>a. origin s t = Some a \<and> type a = pat w))"

definition once :: "('p, 'x, 'b, 'v, 'e, 'st) middleware \<Rightarrow> bool" where
  "once s \<longleftrightarrow> (\<forall>t. length (outcomes_of t s) \<le> 1)"

subsection \<open>Example triggers\<close>

text \<open>
  The triggers of the spec's scenarios, with \<open>params\<close> a string; \<open>malformed\<close> has no
  \<open>targetId\<close>, an empty \<open>tapId\<close> and no \<open>streamId\<close>. \<open>tagged n\<close> is the load trigger
  with one more property on the object.
\<close>

type_synonym example_middleware = "(string, unit, string, string, string, unit) middleware"

definition load_t1 :: "string action" where
  "load_t1 = \<lparr>type = LOAD_STREAMS, targetId = JString ''t1'', tapId = JString ''tp1'',
               streamId = JUndefined, params = ''''\<rparr>"

definition update_s1 :: "string action" where
  "update_s1 = \<lparr>type = UPDATE_STREAM_TO_REPLICATE, targetId = JString ''t1'',
                 tapId = JString ''tp1'', streamId = JString ''s1'', params = ''INCREMENTAL''\<rparr>"

definition update_s2 :: "string action" where
  "update_s2 = \<lparr>type = UPDATE_STREAM_TO_REPLICATE, targetId = JString ''t1'',
                 tapId = JString ''tp1'', streamId = JString ''s2'', params = ''FULL_TABLE''\<rparr>"

definition malformed :: "string action" where
  "malformed = \<lparr>type = UPDATE_STREAM_TO_REPLICATE, targetId = JUndefined,
                 tapId = JString [], streamId = JUndefined, params = ''''\<rparr>"

definition tagged :: "nat \<Rightarrow> (string, nat) action_scheme" where
  "tagged n = \<lparr>type = LOAD_STREAMS, targetId = JString ''t1'', tapId = JString ''tp1'',
                streamId = JUndefined, params = '''', \<dots> = n\<rparr>"

text \<open>
  A stand-in for \<^verbatim>\<open>JSON.stringify\<close> that throws on one value of \<open>params\<close>, as the
  built-in does on a cyclic object; an update trigger with that value; and a store whose
  dispatch throws \<open>e\<close> on the action \<open>x\<close> and on no other.
\<close>

definition stand_in_stringify :: "string \<Rightarrow> string + string" where
  "stand_in_stringify p = (if p = ''cyclic'' then Inl ''TypeError'' else Inr p)"

definition update_cyclic :: "string action" where
  "update_cyclic = \<lparr>type = UPDATE_STREAM_TO_REPLICATE, targetId = JString ''t1'',
                     tapId = JString ''tp1'', streamId = JString ''s1'', params = ''cyclic''\<rparr>"

definition throws_on ::
  "(string, string) outcome \<Rightarrow> string \<Rightarrow> (string, string) outcome \<Rightarrow> string option" where
  "throws_on x e a = (if a = x then Some e else None)"

section \<open>Properties\<close>

subsection \<open>Evaluation and single steps\<close>

lemmas eval = step_def tapPostgresData_def takeLatest_def takeLatest_round_def
  updateStreamToReplicate_def getStreams_def proceed_def cancel_def Let_def init_def
  outcomes_of_def issued_def load_t1_def update_s1_def update_s2_def malformed_def tagged_def

lemmas eval_throwing = step_throwing_def tapPostgresData_throwing_def
  takeLatest_round_throwing_def proceed_throwing_def updateStreamToReplicate_throwing_def
  issued_throwing_def stand_in_stringify_def throws_on_def update_cyclic_def

lemma getStreams_Call: "getStreams a = Call (load_request a) after_load"
  by (simp add: getStreams_def load_request_def after_load_def Let_def fun_eq_iff
      split: sum.splits)

lemma update_Call: "updateStreamToReplicate js a = Call (update_request js a) after_update"
  by (simp add: updateStreamToReplicate_def update_request_def after_update_def Let_def
      fun_eq_iff split: sum.splits)

lemma pat_inj: "w < 2 \<Longrightarrow> w' < 2 \<Longrightarrow> pat w = pat w' \<Longrightarrow> w = w'"
  by (auto simp: pat_def split: if_splits)

lemma advance_kont: "advance (kont w r) \<sigma> = ([result w r], Finished)"
  by (simp add: kont_def result_def after_load_def load_outcome_def
      after_update_def update_outcome_def split: sum.splits)

lemma blocked_cancel: "blocked (cancel h s) t = (if h = Some t then None else blocked s t)"
  by (auto simp: cancel_def split: option.splits)

lemma step_dispatch:
  assumes "w < 2" "type a = pat w"
  shows "blocked (step (tapPostgresData js) (\<sigma>, Dispatch a) s)
           = (blocked (cancel (lastTask s w) s))(nextTask s := Some (kont w))"
    and "emitted (step (tapPostgresData js) (\<sigma>, Dispatch a) s) = emitted s"
    and "requests (step (tapPostgresData js) (\<sigma>, Dispatch a) s)
           = requests s @ [(nextTask s, req_of js w a)]"
    and "nextTask (step (tapPostgresData js) (\<sigma>, Dispatch a) s) = Suc (nextTask s)"
    and "origin (step (tapPostgresData js) (\<sigma>, Dispatch a) s) = (origin s)(nextTask s \<mapsto> a)"
    and "lastTask (step (tapPostgresData js) (\<sigma>, Dispatch a) s) = (lastTask s)(w := Some (nextTask s))"
    and "uncaught (step (tapPostgresData js) (\<sigma>, Dispatch a) s) = uncaught s"
proof -
  from assms(1) have "w = 0 \<or> w = 1" by auto
  then have
    "blocked (step (tapPostgresData js) (\<sigma>, Dispatch a) s)
           = (blocked (cancel (lastTask s w) s))(nextTask s := Some (kont w))
     \<and> emitted (step (tapPostgresData js) (\<sigma>, Dispatch a) s) = emitted s
     \<and> requests (step (tapPostgresData js) (\<sigma>, Dispatch a) s)
           = requests s @ [(nextTask s, req_of js w a)]
     \<and> nextTask (step (tapPostgresData js) (\<sigma>, Dispatch a) s) = Suc (nextTask s)
     \<and> origin (step (tapPostgresData js) (\<sigma>, Dispatch a) s) = (origin s)(nextTask s \<mapsto> a)
     \<and> lastTask (step (tapPostgresData js) (\<sigma>, Dispatch a) s) = (lastTask s)(w := Some (nextTask s))
     \<and> uncaught (step (tapPostgresData js) (\<sigma>, Dispatch a) s) = uncaught s"
    using assms(2)
    by (auto simp: pat_def kont_def req_of_def step_def tapPostgresData_def takeLatest_def
          takeLatest_round_def getStreams_Call update_Call proceed_def cancel_def Let_def
          split: option.splits)
  then show
    "blocked (step (tapPostgresData js) (\<sigma>, Dispatch a) s)
           = (blocked (cancel (lastTask s w) s))(nextTask s := Some (kont w))"
    and "emitted (step (tapPostgresData js) (\<sigma>, Dispatch a) s) = emitted s"
    and "requests (step (tapPostgresData js) (\<sigma>, Dispatch a) s)
           = requests s @ [(nextTask s, req_of js w a)]"
    and "nextTask (step (tapPostgresData js) (\<sigma>, Dispatch a) s) = Suc (nextTask s)"
    and "origin (step (tapPostgresData js) (\<sigma>, Dispatch a) s) = (origin s)(nextTask s \<mapsto> a)"
    and "lastTask (step (tapPostgresData js) (\<sigma>, Dispatch a) s) = (lastTask s)(w := Some (nextTask s))"
    and "uncaught (step (tapPostgresData js) (\<sigma>, Dispatch a) s) = uncaught s"
    by simp_all
qed

lemma step_other:
  assumes "type a \<noteq> pat 0" "type a \<noteq> pat 1"
  shows "step (tapPostgresData js) (\<sigma>, Dispatch a) s = s"
  using assms
  by (simp add: step_def tapPostgresData_def takeLatest_def pat_def)

lemma step_settle_none:
  "blocked s t = None \<Longrightarrow> step ws (\<sigma>, Settle t r) s = s"
  by (simp add: step_def)

lemma step_settle:
  assumes "blocked s t = Some (kont w)"
  shows "step ws (\<sigma>, Settle t r) s
           = s\<lparr>emitted := emitted s @ [(t, result w r)], blocked := (blocked s)(t := None)\<rparr>"
  using assms by (simp add: step_def proceed_def advance_kont)

lemma outcomes_of_emitted_eq: "emitted s' = emitted s \<Longrightarrow> outcomes_of t s' = outcomes_of t s"
  by (simp add: outcomes_of_def)

lemma outcomes_of_snoc:
  "emitted s' = emitted s @ [(u, x)] \<Longrightarrow>
     outcomes_of t s' = outcomes_of t s @ (if u = t then [x] else [])"
  by (simp add: outcomes_of_def)

subsection \<open>The invariant\<close>

lemma consistentD_blocked:
  "consistent s \<Longrightarrow> blocked s t = Some k \<Longrightarrow>
     outcomes_of t s = [] \<and>
     (\<exists>a w. w < 2 \<and> origin s t = Some a \<and> type a = pat w \<and> k = kont w \<and> lastTask s w = Some t)"
  unfolding consistent_def by blast

lemma consistentD_fresh:
  "consistent s \<Longrightarrow> nextTask s \<le> t \<Longrightarrow> outcomes_of t s = [] \<and> origin s t = None \<and> blocked s t = None"
  unfolding consistent_def by blast

lemma consistentD_once: "consistent s \<Longrightarrow> length (outcomes_of t s) \<le> 1"
  unfolding consistent_def by blast

lemma consistentD_origin: "consistent s \<Longrightarrow> origin s t = Some a \<Longrightarrow> \<exists>w. w < 2 \<and> type a = pat w"
  unfolding consistent_def by blast

lemma consistentD_last:
  "consistent s \<Longrightarrow> w < 2 \<Longrightarrow> lastTask s w = Some t \<Longrightarrow> \<exists>a. origin s t = Some a \<and> type a = pat w"
  unfolding consistent_def by blast

lemma consistent_init: "consistent init"
  by (simp add: consistent_def init_def outcomes_of_def)

lemma consistent_dispatch:
  assumes i: "consistent s" and w: "w < 2" and a: "type a = pat w"
  shows "consistent (step (tapPostgresData js) (\<sigma>, Dispatch a) s)"
proof -
  let ?s' = "step (tapPostgresData js) (\<sigma>, Dispatch a) s"
  note f = step_dispatch[OF w a, of js \<sigma> s]
  have out: "\<And>t. outcomes_of t ?s' = outcomes_of t s"
    by (rule outcomes_of_emitted_eq) (rule f(2))
  have fresh: "origin s (nextTask s) = None" "blocked s (nextTask s) = None"
    "outcomes_of (nextTask s) s = []"
    using consistentD_fresh[OF i, of "nextTask s"] by simp_all
  have c1: "outcomes_of t ?s' = [] \<and>
        (\<exists>a w. w < 2 \<and> origin ?s' t = Some a \<and> type a = pat w \<and> k = kont w
                \<and> lastTask ?s' w = Some t)" if b: "blocked ?s' t = Some k" for t k
  proof (cases "t = nextTask s")
    case True
    with b have "k = kont w" by (simp add: f(1))
    with True w a fresh show ?thesis by (auto simp: out f)
  next
    case False
    with b have b0: "blocked s t = Some k" and nl: "lastTask s w \<noteq> Some t"
      by (auto simp: f(1) blocked_cancel split: if_splits)
    from consistentD_blocked[OF i b0] obtain a0 w0 where
      o: "outcomes_of t s = []" and w0: "w0 < 2" "origin s t = Some a0" "type a0 = pat w0"
      "k = kont w0" "lastTask s w0 = Some t" by blast
    with nl have "w0 \<noteq> w" by auto
    with w0 False o show ?thesis by (auto simp: out f)
  qed
  have c2: "outcomes_of t ?s' = [] \<and> origin ?s' t = None \<and> blocked ?s' t = None"
    if "nextTask ?s' \<le> t" for t
    using that consistentD_fresh[OF i, of t] by (auto simp: out f blocked_cancel)
  have c3: "length (outcomes_of t ?s') \<le> 1" for t
    using consistentD_once[OF i] by (simp add: out)
  have c4: "\<exists>w. w < 2 \<and> type a' = pat w" if "origin ?s' t = Some a'" for t a'
    using that consistentD_origin[OF i, of t a'] w a by (auto simp: f split: if_splits)
  have c5: "\<exists>a. origin ?s' t = Some a \<and> type a = pat w'"
    if "w' < 2" "lastTask ?s' w' = Some t" for w' t
  proof (cases "w' = w")
    case True
    with that have "t = nextTask s" by (simp add: f)
    with True a show ?thesis by (simp add: f)
  next
    case False
    with that have l: "lastTask s w' = Some t" by (simp add: f)
    from consistentD_last[OF i that(1) l] obtain a0 where a0: "origin s t = Some a0" "type a0 = pat w'"
      by blast
    with fresh have "t \<noteq> nextTask s" by auto
    with a0 show ?thesis by (simp add: f)
  qed
  have c6: "uncaught ?s' = []"
    using i by (simp add: f consistent_def)
  show ?thesis unfolding consistent_def using c1 c2 c3 c4 c5 c6 by blast
qed

lemma consistent_settle:
  assumes i: "consistent s"
  shows "consistent (step (tapPostgresData js) (\<sigma>, Settle t r) s)"
proof (cases "blocked s t")
  case None
  then show ?thesis using i by (simp add: step_settle_none)
next
  case (Some k)
  from consistentD_blocked[OF i Some] have e: "outcomes_of t s = []" by blast
  from consistentD_blocked[OF i Some] obtain w where k: "k = kont w" by blast
  let ?s' = "s\<lparr>emitted := emitted s @ [(t, result w r)], blocked := (blocked s)(t := None)\<rparr>"
  have st: "step (tapPostgresData js) (\<sigma>, Settle t r) s = ?s'"
    using Some k by (simp add: step_settle)
  have out: "\<And>u. outcomes_of u ?s' = outcomes_of u s @ (if t = u then [result w r] else [])"
    by (rule outcomes_of_snoc) simp
  have lt: "t < nextTask s"
    using consistentD_fresh[OF i, of t] Some by (cases "t < nextTask s") auto
  have c1: "outcomes_of u ?s' = [] \<and>
        (\<exists>a w. w < 2 \<and> origin ?s' u = Some a \<and> type a = pat w \<and> k' = kont w
                \<and> lastTask ?s' w = Some u)" if b: "blocked ?s' u = Some k'" for u k'
  proof -
    from b have "u \<noteq> t" and "blocked s u = Some k'" by (auto split: if_splits)
    with consistentD_blocked[OF i this(2)] show ?thesis by (auto simp: out)
  qed
  have c2: "outcomes_of u ?s' = [] \<and> origin ?s' u = None \<and> blocked ?s' u = None"
    if "nextTask ?s' \<le> u" for u
    using that consistentD_fresh[OF i, of u] lt by (auto simp: out)
  have c3: "length (outcomes_of u ?s') \<le> 1" for u
    using consistentD_once[OF i, of u] e by (auto simp: out)
  have c4: "\<exists>w. w < 2 \<and> type a' = pat w" if "origin ?s' u = Some a'" for u a'
    using that consistentD_origin[OF i, of u a'] by simp
  have c5: "\<exists>a. origin ?s' u = Some a \<and> type a = pat w'"
    if "w' < 2" "lastTask ?s' w' = Some u" for w' u
    using that consistentD_last[OF i, of w' u] by simp
  have c6: "uncaught ?s' = []"
    using i by (simp add: consistent_def)
  show ?thesis unfolding st consistent_def using c1 c2 c3 c4 c5 c6 by blast
qed

lemma consistent_step:
  assumes "consistent s"
  shows "consistent (step (tapPostgresData js) se s)"
proof (cases se)
  case (Pair \<sigma> ev)
  show ?thesis
  proof (cases ev)
    case (Dispatch a)
    consider "type a = pat 0" | "type a = pat 1" | "type a \<noteq> pat 0" "type a \<noteq> pat 1"
      by blast
    then show ?thesis
    proof cases
      case 1
      then show ?thesis using assms Pair Dispatch consistent_dispatch[of s 0 a] by simp
    next
      case 2
      then show ?thesis using assms Pair Dispatch consistent_dispatch[of s 1 a] by simp
    next
      case 3
      then show ?thesis using assms Pair Dispatch by (simp add: step_other)
    qed
  next
    case (Settle t r)
    then show ?thesis using assms Pair by (simp add: consistent_settle)
  qed
qed

lemma consistent_run: "consistent s \<Longrightarrow> consistent (run (tapPostgresData js) tr s)"
  by (induction tr arbitrary: s) (simp_all add: consistent_step)

lemma consistent_reachable: "consistent (run (tapPostgresData js) tr init)"
  by (simp add: consistent_run consistent_init)

lemma run_append: "run ws (tr @ tr') s = run ws tr' (run ws tr s)"
  by (induction tr arbitrary: s) simp_all

subsection \<open>Tasks that stay silent, tasks that stay in flight\<close>

lemma settled_fields:
  assumes i: "consistent s"
  shows "requests (step (tapPostgresData js) (\<sigma>, Settle t r) s) = requests s"
    and "nextTask (step (tapPostgresData js) (\<sigma>, Settle t r) s) = nextTask s"
    and "origin (step (tapPostgresData js) (\<sigma>, Settle t r) s) = origin s"
    and "lastTask (step (tapPostgresData js) (\<sigma>, Settle t r) s) = lastTask s"
    and "u \<noteq> t \<Longrightarrow> blocked (step (tapPostgresData js) (\<sigma>, Settle t r) s) u = blocked s u"
    and "u \<noteq> t \<Longrightarrow> outcomes_of u (step (tapPostgresData js) (\<sigma>, Settle t r) s) = outcomes_of u s"
proof -
  have "requests (step (tapPostgresData js) (\<sigma>, Settle t r) s) = requests s
    \<and> nextTask (step (tapPostgresData js) (\<sigma>, Settle t r) s) = nextTask s
    \<and> origin (step (tapPostgresData js) (\<sigma>, Settle t r) s) = origin s
    \<and> lastTask (step (tapPostgresData js) (\<sigma>, Settle t r) s) = lastTask s
    \<and> (u \<noteq> t \<longrightarrow> blocked (step (tapPostgresData js) (\<sigma>, Settle t r) s) u = blocked s u)
    \<and> (u \<noteq> t \<longrightarrow> outcomes_of u (step (tapPostgresData js) (\<sigma>, Settle t r) s) = outcomes_of u s)"
  proof (cases "blocked s t")
    case None
    then show ?thesis by (simp add: step_settle_none)
  next
    case (Some k)
    from consistentD_blocked[OF i Some] obtain w where "k = kont w" by blast
    with Some have "blocked s t = Some (kont w)" by simp
    then show ?thesis by (simp add: step_settle outcomes_of_def)
  qed
  then show "requests (step (tapPostgresData js) (\<sigma>, Settle t r) s) = requests s"
    and "nextTask (step (tapPostgresData js) (\<sigma>, Settle t r) s) = nextTask s"
    and "origin (step (tapPostgresData js) (\<sigma>, Settle t r) s) = origin s"
    and "lastTask (step (tapPostgresData js) (\<sigma>, Settle t r) s) = lastTask s"
    and "u \<noteq> t \<Longrightarrow> blocked (step (tapPostgresData js) (\<sigma>, Settle t r) s) u = blocked s u"
    and "u \<noteq> t \<Longrightarrow> outcomes_of u (step (tapPostgresData js) (\<sigma>, Settle t r) s) = outcomes_of u s"
    by simp_all
qed

text \<open>A task that is neither suspended nor yet to be forked stays silent for good.\<close>

lemma silent_step:
  assumes i: "consistent s" and b: "blocked s t = None" and lt: "t < nextTask s"
  shows "blocked (step (tapPostgresData js) se s) t = None
       \<and> t < nextTask (step (tapPostgresData js) se s)
       \<and> outcomes_of t (step (tapPostgresData js) se s) = outcomes_of t s"
proof (cases se)
  case (Pair \<sigma> ev)
  show ?thesis
  proof (cases ev)
    case (Dispatch a)
    consider "type a = pat 0" | "type a = pat 1" | "type a \<noteq> pat 0" "type a \<noteq> pat 1"
      by blast
    then show ?thesis
    proof cases
      case 1
      note f = step_dispatch[of 0 a js \<sigma> s, OF _ 1]
      show ?thesis using b lt unfolding Pair Dispatch
        by (simp add: f blocked_cancel outcomes_of_emitted_eq[OF f(2)])
    next
      case 2
      note f = step_dispatch[of 1 a js \<sigma> s, OF _ 2]
      show ?thesis using b lt unfolding Pair Dispatch
        by (simp add: f blocked_cancel outcomes_of_emitted_eq[OF f(2)])
    next
      case 3
      then show ?thesis using b lt unfolding Pair Dispatch by (simp add: step_other)
    qed
  next
    case (Settle u r)
    show ?thesis
    proof (cases "u = t")
      case True
      then show ?thesis using b lt unfolding Pair Settle by (simp add: step_settle_none)
    next
      case False
      then show ?thesis using b lt unfolding Pair Settle
        by (simp add: settled_fields[OF i])
    qed
  qed
qed

lemma silent_run:
  assumes "consistent s" "blocked s t = None" "t < nextTask s"
  shows "outcomes_of t (run (tapPostgresData js) tr s) = outcomes_of t s"
  using assms
proof (induction tr arbitrary: s)
  case Nil
  then show ?case by simp
next
  case (Cons se tr)
  from silent_step[OF Cons.prems, of js se] consistent_step[OF Cons.prems(1), of js se]
  have "outcomes_of t (run (tapPostgresData js) tr (step (tapPostgresData js) se s))
          = outcomes_of t (step (tapPostgresData js) se s)"
    by (intro Cons.IH) simp_all
  with silent_step[OF Cons.prems, of js se] show ?case by simp
qed

lemma origin_lt: "consistent s \<Longrightarrow> origin s t = Some a \<Longrightarrow> t < nextTask s"
  using consistentD_fresh[of s t] by (cases "t < nextTask s") auto

text \<open>Dispatching a trigger of the kind a task was forked for leaves that task cancelled.\<close>

lemma superseded:
  assumes i: "consistent s" and o: "origin s t = Some a" and ty: "type a' = type a"
  shows "blocked (step (tapPostgresData js) (\<sigma>, Dispatch a') s) t = None"
proof -
  from consistentD_origin[OF i o] obtain w where w: "w < 2" "type a = pat w" by blast
  from w ty have w': "type a' = pat w" by simp
  have f: "blocked (step (tapPostgresData js) (\<sigma>, Dispatch a') s)
           = (blocked (cancel (lastTask s w) s))(nextTask s := Some (kont w))"
    by (rule step_dispatch(1)[OF w(1) w'])
  have ne: "t \<noteq> nextTask s" using origin_lt[OF i o] by simp
  have "blocked (cancel (lastTask s w) s) t = None"
  proof (cases "blocked s t")
    case None
    then show ?thesis by (simp add: blocked_cancel)
  next
    case (Some k)
    from consistentD_blocked[OF i Some] o obtain v where
      v: "v < 2" "type a = pat v" "lastTask s v = Some t" by auto
    from w(2) v(2) have "pat w = pat v" by (rule subst)
    then have "w = v" by (rule pat_inj[OF w(1) v(1)])
    with v(3) have "lastTask s w = Some t" by simp
    then show ?thesis by (simp add: blocked_cancel)
  qed
  with ne show ?thesis by (simp add: f)
qed

lemma superseded_silent:
  assumes i: "consistent s" and o: "origin s t = Some a" and ty: "type a' = type a"
  shows "outcomes_of t (run (tapPostgresData js) ((\<sigma>, Dispatch a') # post) s) = outcomes_of t s"
proof -
  let ?s' = "step (tapPostgresData js) (\<sigma>, Dispatch a') s"
  from consistentD_origin[OF i o] obtain w where w: "w < 2" "type a' = pat w" using ty by auto
  have e: "emitted ?s' = emitted s" by (rule step_dispatch(2)[OF w])
  have n: "nextTask ?s' = Suc (nextTask s)" by (rule step_dispatch(4)[OF w])
  have i': "consistent ?s'" by (rule consistent_step[OF i])
  have b': "blocked ?s' t = None" by (rule superseded[OF i o ty])
  have lt: "t < nextTask ?s'" using origin_lt[OF i o] n by simp
  have "outcomes_of t (run (tapPostgresData js) post ?s') = outcomes_of t ?s'"
    by (rule silent_run[OF i' b' lt])
  also have "\<dots> = outcomes_of t s" by (rule outcomes_of_emitted_eq[OF e])
  finally show ?thesis by simp
qed

lemma result_terminal: "w < 2 \<Longrightarrow> result w r = terminal_event (pat w) r"
  by (auto simp: result_def terminal_event_def pat_def load_outcome_def update_outcome_def)

lemma settle_in_flight:
  assumes i: "consistent s" and b: "blocked s t = Some k" and o: "origin s t = Some a"
  shows "step (tapPostgresData js) (\<sigma>, Settle t r) s
           = s\<lparr>emitted := emitted s @ [(t, terminal_event (type a) r)],
               blocked := (blocked s)(t := None)\<rparr>"
proof -
  from consistentD_blocked[OF i b] o obtain w where w: "w < 2" "type a = pat w" "k = kont w"
    by auto
  from b w(3) have "blocked s t = Some (kont w)" by simp
  then show ?thesis by (simp add: step_settle result_terminal[OF w(1)] w(2))
qed

lemma spared_step:
  assumes i: "consistent s" and b: "blocked s t = Some k" and o: "origin s t = Some a"
    and sp: "spares (type a) t [se]"
  shows "blocked (step (tapPostgresData js) se s) t = Some k
       \<and> origin (step (tapPostgresData js) se s) t = Some a"
proof (cases se)
  case (Pair \<sigma> ev)
  have ne: "t \<noteq> nextTask s" using origin_lt[OF i o] by simp
  show ?thesis
  proof (cases ev)
    case (Dispatch a')
    with sp Pair have ty: "type a' \<noteq> type a" by simp
    show ?thesis
    proof (cases "\<exists>w<2. type a' = pat w")
      case True
      then obtain w where w: "w < 2" "type a' = pat w" by blast
      note f = step_dispatch[OF w, of js \<sigma> s]
      have "lastTask s w \<noteq> Some t"
      proof
        assume "lastTask s w = Some t"
        from consistentD_last[OF i w(1) this] o have "type a = pat w" by auto
        with w(2) ty show False by simp
      qed
      then have "blocked (cancel (lastTask s w) s) t = blocked s t"
        by (simp add: blocked_cancel)
      with b o ne show ?thesis unfolding Pair Dispatch by (simp add: f)
    next
      case False
      then have "type a' \<noteq> pat 0" "type a' \<noteq> pat 1" by auto
      then show ?thesis using b o unfolding Pair Dispatch by (simp add: step_other)
    qed
  next
    case (Settle u r)
    with sp Pair have "t \<noteq> u" by simp
    then show ?thesis using b o unfolding Pair Settle by (simp add: settled_fields[OF i])
  qed
qed

lemma spared_run:
  assumes "consistent s" "blocked s t = Some k" "origin s t = Some a" "spares (type a) t post"
  shows "blocked (run (tapPostgresData js) post s) t = Some k
       \<and> origin (run (tapPostgresData js) post s) t = Some a"
  using assms
proof (induction post arbitrary: s)
  case Nil
  then show ?case by simp
next
  case (Cons se post)
  from Cons.prems(4) have sp: "spares (type a) t [se]" "spares (type a) t post"
    by (cases se; cases "snd se"; simp)+
  from spared_step[OF Cons.prems(1-3) sp(1), of js] consistent_step[OF Cons.prems(1), of js se]
  have "blocked (run (tapPostgresData js) post (step (tapPostgresData js) se s)) t = Some k
       \<and> origin (run (tapPostgresData js) post (step (tapPostgresData js) se s)) t = Some a"
    using sp(2) by (intro Cons.IH) simp_all
  then show ?case by simp
qed

lemma delivered:
  assumes i: "consistent s" and b: "blocked s t \<noteq> None" and o: "origin s t = Some a"
    and sp: "spares (type a) t post"
  shows "blocked (run (tapPostgresData js) post s) t = blocked s t
       \<and> outcomes_of t (run (tapPostgresData js) (post @ [(\<sigma>, Settle t r)]) s)
           = [terminal_event (type a) r]"
proof -
  let ?s' = "run (tapPostgresData js) post s"
  have i': "consistent ?s'" by (rule consistent_run[OF i])
  from b obtain k where k: "blocked s t = Some k" by blast
  from spared_run[OF i k o sp] have b': "blocked ?s' t = Some k" and o': "origin ?s' t = Some a"
    by simp_all
  from consistentD_blocked[OF i' b'] have e: "outcomes_of t ?s' = []" by simp
  have "outcomes_of t (step (tapPostgresData js) (\<sigma>, Settle t r) ?s') = [terminal_event (type a) r]"
    using e by (simp add: settle_in_flight[OF i' b' o'] outcomes_of_def)
  with b' k show ?thesis by (simp add: run_append)
qed

lemma kind_cases:
  obtains w where "w < 2" "type a = pat w" | "type a \<noteq> pat 0" "type a \<noteq> pat 1"
proof (cases "type a = pat 0")
  case True
  then show ?thesis using that(1)[of 0] by simp
next
  case n0: False
  show ?thesis
  proof (cases "type a = pat 1")
    case True
    then show ?thesis using that(1)[of 1] by simp
  next
    case False
    with n0 show ?thesis by (rule that(2))
  qed
qed

lemma issued_dispatch:
  "w < 2 \<Longrightarrow> type a = pat w \<Longrightarrow> issued (tapPostgresData js) \<sigma> a s = [req_of js w a]"
  by (simp add: issued_def step_dispatch(3))

lemma issued_other:
  "type a \<noteq> pat 0 \<Longrightarrow> type a \<noteq> pat 1 \<Longrightarrow> issued (tapPostgresData js) \<sigma> a s = []"
  by (simp add: issued_def step_other)

subsection \<open>The base of every URL, and the store\<close>

lemma prefix_req_of: "prefix ''http://localhost:5000'' (url (req_of js w a))"
  by (simp add: req_of_def load_request_def update_request_def)

lemma base_ok_step:
  assumes i: "consistent s" and b: "base_ok s"
  shows "base_ok (step (tapPostgresData js) se s)"
proof (cases se)
  case (Pair \<sigma> ev)
  show ?thesis
  proof (cases ev)
    case (Dispatch a)
    show ?thesis
    proof (cases a rule: kind_cases)
      case (1 w)
      have "requests (step (tapPostgresData js) (\<sigma>, Dispatch a) s)
              = requests s @ [(nextTask s, req_of js w a)]"
        by (rule step_dispatch(3)[OF 1])
      with b show ?thesis unfolding Pair Dispatch base_ok_def
        using prefix_req_of[of js w a] by auto
    next
      case 2
      with b show ?thesis unfolding Pair Dispatch by (simp add: step_other)
    qed
  next
    case (Settle t r)
    with b show ?thesis unfolding Pair base_ok_def by (simp add: settled_fields(1)[OF i])
  qed
qed

lemma base_ok_run:
  "consistent s \<Longrightarrow> base_ok s \<Longrightarrow> base_ok (run (tapPostgresData js) tr s)"
  by (induction tr arbitrary: s) (simp_all add: base_ok_step consistent_step)

lemma step_store_indep:
  assumes i: "consistent s"
  shows "step (tapPostgresData js) (\<sigma>, ev) s = step (tapPostgresData js) (\<sigma>', ev) s"
proof (cases ev)
  case (Dispatch a)
  show ?thesis unfolding Dispatch
    by (simp add: step_def tapPostgresData_def takeLatest_def takeLatest_round_def
        getStreams_Call update_Call proceed_def Let_def)
next
  case (Settle t r)
  show ?thesis
  proof (cases "blocked s t")
    case None
    then show ?thesis unfolding Settle by (simp add: step_settle_none)
  next
    case (Some k)
    from consistentD_blocked[OF i Some] obtain w where "k = kont w" by blast
    with Some have "blocked s t = Some (kont w)" by simp
    then show ?thesis unfolding Settle by (simp add: step_settle)
  qed
qed

lemma run_store_indep:
  assumes "consistent s" "map snd tr = map snd tr'"
  shows "run (tapPostgresData js) tr s = run (tapPostgresData js) tr' s"
  using assms
proof (induction tr arbitrary: tr' s)
  case Nil
  then show ?case by simp
next
  case (Cons se tr)
  from Cons.prems(2) obtain se' tr'' where t: "tr' = se' # tr''" "snd se = snd se'"
    "map snd tr = map snd tr''" by (cases tr') auto
  have "step (tapPostgresData js) se s = step (tapPostgresData js) se' s"
    using step_store_indep[OF Cons.prems(1), of js "fst se" "snd se" "fst se'"] t(2)
    by (cases se; cases se') simp
  moreover have "run (tapPostgresData js) tr (step (tapPostgresData js) se s)
      = run (tapPostgresData js) tr'' (step (tapPostgresData js) se s)"
    by (rule Cons.IH[OF consistent_step[OF Cons.prems(1)] t(3)])
  ultimately show ?case by (simp add: t(1))
qed

subsection \<open>The middleware on an environment that throws\<close>

lemma advance_throwing_kont:
  "w < 2 \<Longrightarrow> advance_throwing d (kont w r) \<sigma>
     = (result w r # extra d w r, halt_of (ending d w r))"
  by (auto simp: kont_def extra_def ending_def halt_of_def result_def after_load_def
        after_update_def load_outcome_def update_outcome_def split: sum.splits option.splits)

lemma soundD_blocked:
  "sound s \<Longrightarrow> blocked s t = Some k \<Longrightarrow>
     outcomes_of t s = [] \<and>
     (\<exists>a w. w < 2 \<and> origin s t = Some a \<and> type a = pat w \<and> k = kont w \<and> lastTask s w = Some t)"
  unfolding sound_def by blast

lemma soundD_fresh:
  "sound s \<Longrightarrow> nextTask s \<le> t \<Longrightarrow> outcomes_of t s = [] \<and> origin s t = None \<and> blocked s t = None"
  unfolding sound_def by blast

lemma soundD_origin: "sound s \<Longrightarrow> origin s t = Some a \<Longrightarrow> \<exists>w. w < 2 \<and> type a = pat w"
  unfolding sound_def by blast

lemma soundD_last:
  "sound s \<Longrightarrow> w < 2 \<Longrightarrow> lastTask s w = Some t \<Longrightarrow> \<exists>a. origin s t = Some a \<and> type a = pat w"
  unfolding sound_def by blast

lemma sound_init: "sound init"
  by (simp add: sound_def init_def outcomes_of_def)

lemma dead_step: "uncaught s \<noteq> [] \<Longrightarrow> step_throwing d ws se s = s"
  by (simp add: step_throwing_def)





text \<open>The workers at the fork.\<close>

lemma update_throwing_Call:
  "JSON_stringify (params a) = Inr b \<Longrightarrow>
     updateStreamToReplicate_throwing JSON_stringify a = Call (update_request (\<lambda>_. b) a) after_update"
  by (simp add: updateStreamToReplicate_throwing_def update_request_def after_update_def Let_def
      fun_eq_iff split: sum.splits)

lemma update_throwing_catch:
  "JSON_stringify (params a) = Inl err \<Longrightarrow>
     advance_throwing d (updateStreamToReplicate_throwing JSON_stringify a) \<sigma>
       = ([updateStreamToReplicateError err], halt_of (d (updateStreamToReplicateError err)))"
  by (simp add: updateStreamToReplicate_throwing_def halt_of_def Let_def split: option.splits)

lemma dispatch_out:
  assumes al: "uncaught s = []" and ty: "type a = pat w" and g: "goes_out je w a req"
  shows "step_throwing d (tapPostgresData_throwing je) (\<sigma>, Dispatch a) s
           = s\<lparr>nextTask := Suc (nextTask s),
               origin := (origin s)(nextTask s \<mapsto> a),
               requests := requests s @ [(nextTask s, req)],
               blocked := (blocked (cancel (lastTask s w) s))(nextTask s := Some (kont w)),
               lastTask := (lastTask s)(w := Some (nextTask s))\<rparr>"
proof -
  from g consider "w = 0" "req = load_request a"
    | b where "w = 1" "je (params a) = Inr b" "req = update_request (\<lambda>_. b) a"
    unfolding goes_out_def by blast
  then show ?thesis
  proof cases
    case 1
    with al ty show ?thesis
      by (simp add: pat_def kont_def step_throwing_def tapPostgresData_throwing_def takeLatest_def
          takeLatest_round_throwing_def getStreams_Call proceed_throwing_def cancel_def Let_def
          split: option.splits)
  next
    case 2
    with al ty show ?thesis
      by (simp add: pat_def kont_def step_throwing_def tapPostgresData_throwing_def takeLatest_def
          takeLatest_round_throwing_def update_throwing_Call proceed_throwing_def cancel_def Let_def
          split: option.splits)
  qed
qed

text \<open>An update whose \<open>params\<close> the encoder throws on: the fields after the dispatch.\<close>

lemma dispatch_thrown:
  assumes al: "uncaught s = []" and ty: "type a = pat 1" and th: "je (params a) = Inl err"
  shows "step_throwing d (tapPostgresData_throwing je) (\<sigma>, Dispatch a) s
           = s\<lparr>nextTask := Suc (nextTask s),
               origin := (origin s)(nextTask s \<mapsto> a),
               emitted := emitted s @ [(nextTask s, updateStreamToReplicateError err)],
               blocked := (case d (updateStreamToReplicateError err) of
                             None \<Rightarrow> (blocked (cancel (lastTask s 1) s))(nextTask s := None)
                           | Some e \<Rightarrow> (\<lambda>_. None)),
               uncaught := (case d (updateStreamToReplicateError err) of
                              None \<Rightarrow> []
                            | Some e \<Rightarrow> [(nextTask s, e)]),
               lastTask := (lastTask s)(1 := Some (nextTask s))\<rparr>"
  using al ty th
  by (simp add: pat_def step_throwing_def tapPostgresData_throwing_def takeLatest_def
      takeLatest_round_throwing_def update_throwing_catch proceed_throwing_def cancel_def Let_def
      halt_of_def split: option.splits)

lemma dispatch_other:
  assumes "type a \<noteq> pat 0" "type a \<noteq> pat 1"
  shows "step_throwing d (tapPostgresData_throwing je) (\<sigma>, Dispatch a) s = s"
  using assms
  by (simp add: step_throwing_def tapPostgresData_throwing_def takeLatest_def pat_def)

lemma settle_none:
  "blocked s t = None \<Longrightarrow> step_throwing d ws (\<sigma>, Settle t r) s = s"
  by (simp add: step_throwing_def)

lemma settle_kont:
  assumes al: "uncaught s = []" and w: "w < 2" and b: "blocked s t = Some (kont w)"
  shows "step_throwing d ws (\<sigma>, Settle t r) s
           = s\<lparr>emitted := emitted s @ map (Pair t) (result w r # extra d w r),
               blocked := (case ending d w r of None \<Rightarrow> (blocked s)(t := None)
                           | Some e \<Rightarrow> (\<lambda>_. None)),
               uncaught := (case ending d w r of None \<Rightarrow> [] | Some e \<Rightarrow> [(t, e)])\<rparr>"
  using al b
  by (simp add: step_throwing_def proceed_throwing_def advance_throwing_kont[OF w] halt_of_def
      split: option.splits)

lemma sound_dispatch_out:
  assumes i: "sound s" and w: "w < 2" and ty: "type a = pat w"
  shows "sound (s\<lparr>nextTask := Suc (nextTask s),
               origin := (origin s)(nextTask s \<mapsto> a),
               requests := rs,
               blocked := (blocked (cancel (lastTask s w) s))(nextTask s := Some (kont w)),
               lastTask := (lastTask s)(w := Some (nextTask s))\<rparr>)"
    (is "sound ?s'")
proof -
  have out: "\<And>t. outcomes_of t ?s' = outcomes_of t s" by (simp add: outcomes_of_def)
  have fresh: "origin s (nextTask s) = None" "blocked s (nextTask s) = None"
    "outcomes_of (nextTask s) s = []"
    using soundD_fresh[OF i, of "nextTask s"] by simp_all
  have c1: "outcomes_of t ?s' = [] \<and>
        (\<exists>a w. w < 2 \<and> origin ?s' t = Some a \<and> type a = pat w \<and> k = kont w
                \<and> lastTask ?s' w = Some t)" if b: "blocked ?s' t = Some k" for t k
  proof (cases "t = nextTask s")
    case True
    with b have "k = kont w" by simp
    with True w ty fresh show ?thesis by (auto simp: out)
  next
    case False
    with b have b0: "blocked s t = Some k" and nl: "lastTask s w \<noteq> Some t"
      by (auto simp: blocked_cancel split: if_splits)
    from soundD_blocked[OF i b0] obtain a0 w0 where
      o: "outcomes_of t s = []" and w0: "w0 < 2" "origin s t = Some a0" "type a0 = pat w0"
      "k = kont w0" "lastTask s w0 = Some t" by blast
    with nl have "w0 \<noteq> w" by auto
    with w0 False o show ?thesis by (auto simp: out)
  qed
  have c2: "outcomes_of t ?s' = [] \<and> origin ?s' t = None \<and> blocked ?s' t = None"
    if "nextTask ?s' \<le> t" for t
    using that soundD_fresh[OF i, of t] by (auto simp: out blocked_cancel)
  have c4: "\<exists>w. w < 2 \<and> type a' = pat w" if "origin ?s' t = Some a'" for t a'
    using that soundD_origin[OF i, of t a'] w ty by (auto split: if_splits)
  have c5: "\<exists>a. origin ?s' t = Some a \<and> type a = pat w'"
    if "w' < 2" "lastTask ?s' w' = Some t" for w' t
  proof (cases "w' = w")
    case True
    with that have "t = nextTask s" by simp
    with True ty show ?thesis by simp
  next
    case False
    with that have l: "lastTask s w' = Some t" by simp
    from soundD_last[OF i that(1) l] obtain a0 where a0: "origin s t = Some a0" "type a0 = pat w'"
      by blast
    with fresh have "t \<noteq> nextTask s" by auto
    with a0 show ?thesis by simp
  qed
  show ?thesis unfolding sound_def using c1 c2 c4 c5 by blast
qed

lemma sound_dispatch_thrown:
  assumes i: "sound s" and ty: "type a = pat 1"
    and bl: "bl = (blocked (cancel (lastTask s 1) s))(nextTask s := None) \<or> bl = (\<lambda>_. None)"
  shows "sound (s\<lparr>nextTask := Suc (nextTask s),
               origin := (origin s)(nextTask s \<mapsto> a),
               emitted := emitted s @ [(nextTask s, x)],
               blocked := bl,
               uncaught := u,
               lastTask := (lastTask s)(1 := Some (nextTask s))\<rparr>)"
    (is "sound ?s'")
proof -
  have out: "\<And>t. t \<noteq> nextTask s \<Longrightarrow> outcomes_of t ?s' = outcomes_of t s"
    by (simp add: outcomes_of_def)
  have fresh: "origin s (nextTask s) = None" "blocked s (nextTask s) = None"
    using soundD_fresh[OF i, of "nextTask s"] by simp_all
  have blD: "t \<noteq> nextTask s \<and> blocked s t = Some k \<and> lastTask s 1 \<noteq> Some t"
    if "bl t = Some k" for t k
    using bl that by (auto simp: blocked_cancel split: if_splits)
  have c1: "outcomes_of t ?s' = [] \<and>
        (\<exists>a w. w < 2 \<and> origin ?s' t = Some a \<and> type a = pat w \<and> k = kont w
                \<and> lastTask ?s' w = Some t)" if b: "blocked ?s' t = Some k" for t k
  proof -
    from b have "bl t = Some k" by simp
    from blD[OF this] have ne: "t \<noteq> nextTask s" and b0: "blocked s t = Some k"
      and nl: "lastTask s 1 \<noteq> Some t" by simp_all
    from soundD_blocked[OF i b0] obtain a0 w0 where
      o: "outcomes_of t s = []" and w0: "w0 < 2" "origin s t = Some a0" "type a0 = pat w0"
      "k = kont w0" "lastTask s w0 = Some t" by blast
    with nl have "w0 \<noteq> 1" by auto
    then have l': "lastTask ?s' w0 = Some t" using w0(5) by simp
    have o': "origin ?s' t = Some a0" using w0(2) ne by simp
    have e': "outcomes_of t ?s' = []" using out[OF ne] o by simp
    from e' o' l' w0(1,3,4) show ?thesis by blast
  qed
  have c2: "outcomes_of t ?s' = [] \<and> origin ?s' t = None \<and> blocked ?s' t = None"
    if "nextTask ?s' \<le> t" for t
  proof -
    from that have ne: "t \<noteq> nextTask s" and le: "nextTask s \<le> t" by simp_all
    have "bl t = None" using blD[of t] soundD_fresh[OF i le] by (cases "bl t") auto
    moreover have "outcomes_of t ?s' = []" using out[OF ne] soundD_fresh[OF i le] by simp
    moreover have "origin ?s' t = None" using ne soundD_fresh[OF i le] by simp
    ultimately show ?thesis by simp
  qed
  have c4: "\<exists>w. w < 2 \<and> type a' = pat w" if "origin ?s' t = Some a'" for t a'
  proof (cases "t = nextTask s")
    case True
    with that have "a' = a" by simp
    with ty have "(1::nat) < 2 \<and> type a' = pat 1" by simp
    then show ?thesis by blast
  next
    case False
    with that have "origin s t = Some a'" by simp
    then show ?thesis by (rule soundD_origin[OF i])
  qed
  have c5: "\<exists>a. origin ?s' t = Some a \<and> type a = pat w'"
    if "w' < 2" "lastTask ?s' w' = Some t" for w' t
  proof (cases "w' = 1")
    case True
    with that have "t = nextTask s" by simp
    with True ty show ?thesis by simp
  next
    case False
    with that have l: "lastTask s w' = Some t" by simp
    from soundD_last[OF i that(1) l] obtain a0 where a0: "origin s t = Some a0" "type a0 = pat w'"
      by blast
    with fresh have "t \<noteq> nextTask s" by auto
    with a0 show ?thesis by simp
  qed
  show ?thesis unfolding sound_def using c1 c2 c4 c5 by blast
qed

lemma sound_settle:
  assumes i: "sound s" and b: "blocked s t = Some k"
    and bl: "bl = (blocked s)(t := None) \<or> bl = (\<lambda>_. None)"
  shows "sound (s\<lparr>emitted := emitted s @ map (Pair t) xs, blocked := bl, uncaught := u\<rparr>)"
    (is "sound ?s'")
proof -
  have out: "\<And>v. v \<noteq> t \<Longrightarrow> outcomes_of v ?s' = outcomes_of v s"
    by (simp add: outcomes_of_def filter_empty_conv)
  have lt: "t < nextTask s"
    using soundD_fresh[OF i, of t] b by (cases "t < nextTask s") auto
  have blD: "v \<noteq> t \<and> blocked s v = Some k'" if "bl v = Some k'" for v k'
    using bl that by (auto split: if_splits)
  have c1: "outcomes_of v ?s' = [] \<and>
        (\<exists>a w. w < 2 \<and> origin ?s' v = Some a \<and> type a = pat w \<and> k' = kont w
                \<and> lastTask ?s' w = Some v)" if "blocked ?s' v = Some k'" for v k'
  proof -
    from that have "bl v = Some k'" by simp
    from blD[OF this] have "v \<noteq> t" and "blocked s v = Some k'" by simp_all
    with soundD_blocked[OF i this(2)] out[OF this(1)] show ?thesis by auto
  qed
  have c2: "outcomes_of v ?s' = [] \<and> origin ?s' v = None \<and> blocked ?s' v = None"
    if "nextTask ?s' \<le> v" for v
  proof -
    from that lt have ne: "v \<noteq> t" and le: "nextTask s \<le> v" by simp_all
    have "bl v = None" using blD[of v] soundD_fresh[OF i le] by (cases "bl v") auto
    with out[OF ne] soundD_fresh[OF i le] show ?thesis by simp
  qed
  have c4: "\<exists>w. w < 2 \<and> type a' = pat w" if "origin ?s' v = Some a'" for v a'
    using that soundD_origin[OF i, of v a'] by simp
  have c5: "\<exists>a. origin ?s' v = Some a \<and> type a = pat w'"
    if "w' < 2" "lastTask ?s' w' = Some v" for w' v
    using that soundD_last[OF i, of w' v] by simp
  show ?thesis unfolding sound_def using c1 c2 c4 c5 by blast
qed

lemma goes_out_or_thrown:
  assumes "w < 2"
  shows "(\<exists>req. goes_out je w a req) \<or> (w = 1 \<and> (\<exists>err. je (params a) = Inl err))"
proof (cases "w = 0")
  case True
  then show ?thesis by (simp add: goes_out_def)
next
  case False
  with assms have w1: "w = 1" by simp
  show ?thesis by (cases "je (params a)") (simp_all add: goes_out_def w1)
qed

lemma sound_step:
  assumes i: "sound s"
  shows "sound (step_throwing d (tapPostgresData_throwing je) se s)"
proof (cases "uncaught s = []")
  case False
  then show ?thesis using i by (simp add: dead_step)
next
  case al: True
  obtain \<sigma> ev where se: "se = (\<sigma>, ev)" by (cases se)
  show ?thesis
  proof (cases ev)
    case (Dispatch a)
    show ?thesis
    proof (cases a rule: kind_cases)
      case (1 w)
      note w = \<open>w < 2\<close> \<open>type a = pat w\<close>
      from goes_out_or_thrown[OF w(1), of je a]
      consider (out) req where "goes_out je w a req"
        | (thrown) err where "w = 1" "je (params a) = Inl err" by blast
      then show ?thesis
      proof cases
        case out
        show ?thesis unfolding se Dispatch dispatch_out[where je=je and a=a and s=s, OF al w(2) out]
          by (rule sound_dispatch_out[OF i w])
      next
        case thrown
        with w(2) have ty: "type a = pat 1" by simp
        show ?thesis unfolding se Dispatch dispatch_thrown[where je=je and a=a and err=err and s=s, OF al ty thrown(2)]
          by (rule sound_dispatch_thrown[OF i ty]) (simp split: option.splits)
      qed
    next
      case 2
      then show ?thesis using i unfolding se Dispatch by (simp add: dispatch_other)
    qed
  next
    case (Settle t r)
    show ?thesis
    proof (cases "blocked s t")
      case None
      then show ?thesis using i unfolding se Settle by (simp add: settle_none)
    next
      case (Some k)
      from soundD_blocked[OF i Some] obtain w where w: "w < 2" "k = kont w" by blast
      from Some w(2) have b: "blocked s t = Some (kont w)" by simp
      show ?thesis unfolding se Settle settle_kont[OF al w(1) b]
        by (rule sound_settle[OF i Some]) (simp split: option.splits)
    qed
  qed
qed




lemma extra_accepted:
  assumes "w < 2" "\<And>p. d (streamsLoaded p) = None" "\<And>p. d (updateStreamToReplicateDone p) = None"
  shows "extra d w r = []"
  using assms
  by (cases r) (simp_all add: extra_def result_def load_outcome_def update_outcome_def)

text \<open>
  The saga is running in every state the middleware reaches when the store's dispatch of
  the error events returns normally: only the put of the \<^verbatim>\<open>catch\<close> block is outside a
  \<^verbatim>\<open>try\<close>.
\<close>

lemma ending_accepted:
  assumes "w < 2" "\<And>e. d (streamsLoadedError e) = None"
    "\<And>e. d (updateStreamToReplicateError e) = None"
  shows "ending d w r = None"
  using assms
  by (cases r)
    (simp_all add: ending_def extra_def result_def load_outcome_def update_outcome_def
      split: option.splits)

lemma alive_step:
  assumes i: "sound s" and al: "uncaught s = []"
    and acc: "\<And>e. d (streamsLoadedError e) = None"
      "\<And>e. d (updateStreamToReplicateError e) = None"
  shows "uncaught (step_throwing d (tapPostgresData_throwing je) se s) = []"
proof -
  obtain \<sigma> ev where se: "se = (\<sigma>, ev)" by (cases se)
  show ?thesis
  proof (cases ev)
    case (Dispatch a)
    show ?thesis
    proof (cases a rule: kind_cases)
      case (1 w)
      note w = \<open>w < 2\<close> \<open>type a = pat w\<close>
      from goes_out_or_thrown[OF w(1), of je a]
      consider (out) req where "goes_out je w a req"
        | (thrown) err where "w = 1" "je (params a) = Inl err" by blast
      then show ?thesis
      proof cases
        case out
        show ?thesis using al
          unfolding se Dispatch dispatch_out[where je=je and a=a and s=s, OF al w(2) out]
          by simp
      next
        case thrown
        with w(2) have ty: "type a = pat 1" by simp
        show ?thesis
          unfolding se Dispatch
            dispatch_thrown[where je=je and a=a and err=err and s=s, OF al ty thrown(2)]
          by (simp add: acc)
      qed
    next
      case 2
      then show ?thesis using al unfolding se Dispatch by (simp add: dispatch_other)
    qed
  next
    case (Settle t r)
    show ?thesis
    proof (cases "blocked s t")
      case None
      then show ?thesis using al unfolding se Settle by (simp add: settle_none)
    next
      case (Some k)
      from soundD_blocked[OF i Some] obtain w where w: "w < 2" "k = kont w" by blast
      from Some w(2) have b: "blocked s t = Some (kont w)" by simp
      show ?thesis unfolding se Settle settle_kont[OF al w(1) b]
        by (simp add: ending_accepted[OF w(1) acc])
    qed
  qed
qed

lemma alive_run:
  assumes "sound s" "uncaught s = []"
    and "\<And>e. d (streamsLoadedError e) = None" "\<And>e. d (updateStreamToReplicateError e) = None"
  shows "uncaught (run_throwing d (tapPostgresData_throwing je) tr s) = []"
  using assms(1,2)
  by (induction tr arbitrary: s) (simp_all add: sound_step alive_step assms(3,4))

lemma alive_reachable:
  assumes "\<And>e. d (streamsLoadedError e) = None" "\<And>e. d (updateStreamToReplicateError e) = None"
  shows "uncaught (run_throwing d (tapPostgresData_throwing je) tr init) = []"
  by (rule alive_run[OF sound_init _ assms]) (simp add: init_def)

lemma once_step:
  assumes i: "sound s" and o: "once s"
    and acc: "\<And>p. d (streamsLoaded p) = None" "\<And>p. d (updateStreamToReplicateDone p) = None"
  shows "once (step_throwing d (tapPostgresData_throwing je) se s)"
proof (cases "uncaught s = []")
  case False
  then show ?thesis using o by (simp add: dead_step)
next
  case al: True
  obtain \<sigma> ev where se: "se = (\<sigma>, ev)" by (cases se)
  show ?thesis
  proof (cases ev)
    case (Dispatch a)
    show ?thesis
    proof (cases a rule: kind_cases)
      case (1 w)
      note w = \<open>w < 2\<close> \<open>type a = pat w\<close>
      from goes_out_or_thrown[OF w(1), of je a]
      consider (out) req where "goes_out je w a req"
        | (thrown) err where "w = 1" "je (params a) = Inl err" by blast
      then show ?thesis
      proof cases
        case out
        show ?thesis using o
          unfolding se Dispatch dispatch_out[where je=je and a=a and s=s, OF al w(2) out]
          by (simp add: once_def outcomes_of_def)
      next
        case thrown
        with w(2) have ty: "type a = pat 1" by simp
        have f: "outcomes_of (nextTask s) s = []"
          using soundD_fresh[OF i, of "nextTask s"] by simp
        show ?thesis
          unfolding se Dispatch
            dispatch_thrown[where je=je and a=a and err=err and s=s, OF al ty thrown(2)] once_def
        proof
          fix t
          show "length (outcomes_of t (s\<lparr>nextTask := Suc (nextTask s),
               origin := (origin s)(nextTask s \<mapsto> a),
               emitted := emitted s @ [(nextTask s, updateStreamToReplicateError err)],
               blocked := (case d (updateStreamToReplicateError err) of
                             None \<Rightarrow> (blocked (cancel (lastTask s 1) s))(nextTask s := None)
                           | Some e \<Rightarrow> (\<lambda>_. None)),
               uncaught := (case d (updateStreamToReplicateError err) of
                              None \<Rightarrow> []
                            | Some e \<Rightarrow> [(nextTask s, e)]),
               lastTask := (lastTask s)(1 := Some (nextTask s))\<rparr>)) \<le> 1"
            using o f by (cases "t = nextTask s") (auto simp: once_def outcomes_of_def)
        qed
      qed
    next
      case 2
      then show ?thesis using o unfolding se Dispatch by (simp add: dispatch_other)
    qed
  next
    case (Settle t r)
    show ?thesis
    proof (cases "blocked s t")
      case None
      then show ?thesis using o unfolding se Settle by (simp add: settle_none)
    next
      case (Some k)
      from soundD_blocked[OF i Some] obtain w where w: "w < 2" "k = kont w" by blast
      from soundD_blocked[OF i Some] have e: "outcomes_of t s = []" by blast
      from Some w(2) have b: "blocked s t = Some (kont w)" by simp
      have x: "extra d w r = []" by (rule extra_accepted[OF w(1) acc])
      show ?thesis unfolding se Settle settle_kont[OF al w(1) b] once_def x
      proof
        fix v
        show "length (outcomes_of v (s\<lparr>emitted := emitted s @ map (Pair t) [result w r],
               blocked := (case ending d w r of None \<Rightarrow> (blocked s)(t := None)
                           | Some e \<Rightarrow> (\<lambda>_. None)),
               uncaught := (case ending d w r of None \<Rightarrow> [] | Some e \<Rightarrow> [(t, e)])\<rparr>)) \<le> 1"
          using o e by (cases "v = t") (auto simp: once_def outcomes_of_def)
      qed
    qed
  qed
qed

lemma once_run:
  assumes "sound s" "once s"
    and "\<And>p. d (streamsLoaded p) = None" "\<And>p. d (updateStreamToReplicateDone p) = None"
  shows "once (run_throwing d (tapPostgresData_throwing je) tr s)"
  using assms(1,2)
proof (induction tr arbitrary: s)
  case Nil
  then show ?case by simp
next
  case (Cons se tr)
  have "once (step_throwing d (tapPostgresData_throwing je) se s)"
    by (rule once_step[OF Cons.prems assms(3,4)])
  moreover have "sound (step_throwing d (tapPostgresData_throwing je) se s)"
    by (rule sound_step[OF Cons.prems(1)])
  ultimately show ?case by (simp add: Cons.IH)
qed




text \<open>The first middleware is the second on a store and an encoder that never throw.\<close>

lemma advance_throwing_quiet: "advance_throwing (\<lambda>_. None) g \<sigma> = advance g \<sigma>"
  by (induction g) simp_all

lemma updateStreamToReplicate_throwing_total:
  "updateStreamToReplicate_throwing (\<lambda>p. Inr (js p)) = updateStreamToReplicate js"
  by (simp add: updateStreamToReplicate_throwing_def updateStreamToReplicate_def fun_eq_iff)

lemma tapPostgresData_throwing_total:
  "tapPostgresData_throwing (\<lambda>p. Inr (js p)) = tapPostgresData js"
  by (simp add: tapPostgresData_throwing_def tapPostgresData_def
      updateStreamToReplicate_throwing_total)

lemma step_throwing_quiet:
  assumes i: "consistent s"
  shows "step_throwing (\<lambda>_. None) (tapPostgresData js) se s = step (tapPostgresData js) se s"
proof -
  have al: "uncaught s = []" using i by (simp add: consistent_def)
  obtain \<sigma> ev where se: "se = (\<sigma>, ev)" by (cases se)
  show ?thesis
  proof (cases ev)
    case (Dispatch a)
    show ?thesis unfolding se Dispatch using al
      by (simp add: step_throwing_def step_def tapPostgresData_def takeLatest_def
          takeLatest_round_throwing_def takeLatest_round_def proceed_throwing_def proceed_def
          advance_throwing_quiet getStreams_Call update_Call cancel_def Let_def
          split: option.splits)
  next
    case (Settle t r)
    show ?thesis
    proof (cases "blocked s t")
      case None
      then show ?thesis unfolding se Settle using al by (simp add: step_throwing_def step_def)
    next
      case (Some k)
      from consistentD_blocked[OF i Some] obtain w where "k = kont w" by blast
      with Some show ?thesis unfolding se Settle using al
        by (simp add: step_throwing_def step_def proceed_throwing_def proceed_def
            advance_throwing_quiet advance_kont)
    qed
  qed
qed

lemma run_throwing_quiet:
  "consistent s \<Longrightarrow>
     run_throwing (\<lambda>_. None) (tapPostgresData js) tr s = run (tapPostgresData js) tr s"
  by (induction tr arbitrary: s) (simp_all add: step_throwing_quiet consistent_step)

lemma run_is_quiet_total_instance:
  "run (tapPostgresData js) tr init
     = run_throwing (\<lambda>_. None) (tapPostgresData_throwing (\<lambda>p. Inr (js p))) tr init"
  by (simp add: tapPostgresData_throwing_total run_throwing_quiet consistent_init)

lemma once_init: "once init"
  by (simp add: once_def init_def outcomes_of_def)

section \<open>The claims\<close>

subsection \<open>C1: latest wins\<close>

text \<open>
  Claim C1. Let \<open>T1\<close> be a trigger dispatched earlier, whose task \<open>t1\<close> has put
  nothing yet, and let \<open>T2\<close> be a trigger of the same type. Once \<open>T2\<close> is dispatched,
  \<open>t1\<close> puts nothing in any continuation of the run, whichever calls settle and in
  whatever order. The task forked for \<open>T2\<close> puts its own terminal event when its call
  settles, whether or not the call of \<open>t1\<close> settled before, as long as no further
  trigger of that type came in between.
\<close>

theorem latest_wins:
  assumes "origin (run (tapPostgresData js) tr init) t1 = Some a1"
    and "type a2 = type a1"
    and "outcomes_of t1 (run (tapPostgresData js) tr init) = []"
    and "spares (type a2) (nextTask (run (tapPostgresData js) tr init)) post"
  shows "outcomes_of t1 (run (tapPostgresData js) (tr @ (\<sigma>, Dispatch a2) # rest) init) = []
       \<and> outcomes_of (nextTask (run (tapPostgresData js) tr init))
           (run (tapPostgresData js)
              (tr @ (\<sigma>, Dispatch a2) # post
                 @ [(\<sigma>', Settle (nextTask (run (tapPostgresData js) tr init)) r)]) init)
           = [terminal_event (type a2) r]"
proof -
  let ?s = "run (tapPostgresData js) tr init"
  let ?s' = "step (tapPostgresData js) (\<sigma>, Dispatch a2) ?s"
  have i: "consistent ?s" by (rule consistent_reachable)
  have i': "consistent ?s'" by (rule consistent_step[OF i])
  from consistentD_origin[OF i assms(1)] obtain w where w: "w < 2" "type a2 = pat w"
    using assms(2) by auto
  have b: "blocked ?s' (nextTask ?s) \<noteq> None" by (simp add: step_dispatch(1)[OF w])
  have o: "origin ?s' (nextTask ?s) = Some a2" by (simp add: step_dispatch(5)[OF w])
  have "outcomes_of t1 (run (tapPostgresData js) ((\<sigma>, Dispatch a2) # rest) ?s) = []"
    using superseded_silent[OF i assms(1,2), of js \<sigma> rest] assms(3) by simp
  moreover
  have "outcomes_of (nextTask ?s)
          (run (tapPostgresData js) (post @ [(\<sigma>', Settle (nextTask ?s) r)]) ?s')
          = [terminal_event (type a2) r]"
    using delivered[OF i' b o assms(4), of js \<sigma>' r] by simp
  ultimately show ?thesis by (simp add: run_append)
qed

text \<open>
  Scenario B of the spec, two loads in a row. The first task stays silent when the
  second call resolves first; the second task delivers when the first call resolves
  first.
\<close>

theorem latest_wins_witness:
  "origin (run (tapPostgresData (\<lambda>p. p)) [((), Dispatch load_t1)] (init :: example_middleware)) 0
     = Some load_t1
   \<and> type load_t1 = type load_t1
   \<and> outcomes_of 0 (run (tapPostgresData (\<lambda>p. p)) [((), Dispatch load_t1)]
        (init :: example_middleware)) = []
   \<and> spares (type load_t1) 1 [((), Settle 0 (Inr ''A''))]
   \<and> outcomes_of 0 (run (tapPostgresData (\<lambda>p. p))
        ([((), Dispatch load_t1)] @ ((), Dispatch load_t1)
           # [((), Settle 1 (Inr ''B'')), ((), Settle 0 (Inr ''A''))])
        (init :: example_middleware)) = []
   \<and> outcomes_of 1 (run (tapPostgresData (\<lambda>p. p))
        ([((), Dispatch load_t1)] @ ((), Dispatch load_t1)
           # [((), Settle 0 (Inr ''A''))] @ [((), Settle 1 (Inr ''B''))])
        (init :: example_middleware)) = [streamsLoaded ''B'']"
proof -
  have h1: "origin (run (tapPostgresData (\<lambda>p. p)) [((), Dispatch load_t1)]
      (init :: example_middleware)) 0 = Some load_t1"
    by (simp add: eval)
  have h3: "outcomes_of 0 (run (tapPostgresData (\<lambda>p. p)) [((), Dispatch load_t1)]
        (init :: example_middleware)) = []"
    by (simp add: eval)
  have n: "nextTask (run (tapPostgresData (\<lambda>p. p)) [((), Dispatch load_t1)]
        (init :: example_middleware)) = 1"
    by (simp add: eval)
  have h4: "spares (type load_t1)
      (nextTask (run (tapPostgresData (\<lambda>p. p)) [((), Dispatch load_t1)]
        (init :: example_middleware))) [((), Settle 0 (Inr ''A'' :: string + string))]"
    unfolding n by simp
  have ty: "type load_t1 = LOAD_STREAMS" by (simp add: load_t1_def)
  show ?thesis
    using h1 h3 h4 n ty
      latest_wins[OF h1 refl h3 h4, of "()"
        "[((), Settle 1 (Inr ''B'')), ((), Settle 0 (Inr ''A''))]" "()" "Inr ''B''"]
    by (simp add: terminal_event_def)
qed

subsection \<open>C2: two updates of different streams\<close>




subsection \<open>C3: the two kinds do not interfere\<close>



subsection \<open>C4: at most one terminal event per task\<close>

text \<open>
  Claim C4 says that no task ever puts both a success event and an error event. Both
  workers put the success action inside the \<^verbatim>\<open>try\<close> block: when the store's dispatch
  of that action throws into the generator, the \<^verbatim>\<open>catch\<close> block puts the error event as
  well, carrying the error the dispatch threw.
\<close>

theorem success_then_error_counterexample:
  "outcomes_of 0
     (run_throwing (throws_on (streamsLoaded ''A'') ''boom'')
        (tapPostgresData_throwing stand_in_stringify)
        [((), Dispatch load_t1), ((), Settle 0 (Inr ''A''))] (init :: example_middleware))
   = [streamsLoaded ''A'', streamsLoadedError ''boom'']"
  by (simp add: eval eval_throwing)

text \<open>
  Claim C4 as amended. Provided the store's dispatch of a success event returns
  normally, every task has put, in every run, no action or exactly one: nothing (it is
  in flight, or was superseded), a success event or an error event, never two. This
  holds whether or not the encoder throws and whether or not the dispatch of an error
  event throws.
\<close>

theorem mutual_exclusivity:
  assumes "\<forall>p. d (streamsLoaded p) = None \<and> d (updateStreamToReplicateDone p) = None"
  shows "length (outcomes_of t (run_throwing d (tapPostgresData_throwing je) tr init)) \<le> 1"
proof -
  have "once (run_throwing d (tapPostgresData_throwing je) tr init)"
    using assms by (intro once_run sound_init once_init) simp_all
  then show ?thesis by (simp add: once_def)
qed

theorem mutual_exclusivity_witness:
  "(\<forall>p. throws_on (streamsLoadedError ''500'') ''boom'' (streamsLoaded p) = None
        \<and> throws_on (streamsLoadedError ''500'') ''boom'' (updateStreamToReplicateDone p) = None)
   \<and> length (outcomes_of 0
        (run_throwing (throws_on (streamsLoadedError ''500'') ''boom'')
           (tapPostgresData_throwing stand_in_stringify)
           [((), Dispatch load_t1), ((), Settle 0 (Inl ''500''))] (init :: example_middleware)))
      \<le> 1"
proof -
  have h: "\<forall>p. throws_on (streamsLoadedError ''500'') ''boom'' (streamsLoaded p) = None
        \<and> throws_on (streamsLoadedError ''500'') ''boom'' (updateStreamToReplicateDone p) = None"
    by (simp add: throws_on_def)
  show ?thesis
    using h mutual_exclusivity[OF h, of 0 stand_in_stringify
        "[((), Dispatch load_t1), ((), Settle 0 (Inl ''500''))]"]
    by simp
qed

subsection \<open>C5: the shape of the requests\<close>

text \<open>
  Claim C5. Dispatching a \<^verbatim>\<open>LOAD_STREAMS\<close> action issues one request, to
  \<^verbatim>\<open>/targets/{targetId}/taps/{tapId}/streams\<close> on the base, without options, hence a
  \<^verbatim>\<open>GET\<close>. Dispatching an \<^verbatim>\<open>UPDATE_STREAM_TO_REPLICATE\<close> action issues one request, to
  \<^verbatim>\<open>/targets/{targetId}/taps/{tapId}/streams/{streamId}\<close>, with method \<^verbatim>\<open>PATCH\<close>, the
  header \<^verbatim>\<open>Content-Type: application/json\<close> and as body what \<^verbatim>\<open>JSON.stringify\<close> returns
  for \<open>params\<close>.
\<close>

theorem request_shape:
  "(type a = LOAD_STREAMS \<longrightarrow>
      issued (tapPostgresData js) \<sigma> a s
        = [\<lparr>url = ''http://localhost:5000'' @ ''/targets/'' @ ToString (targetId a)
                          @ ''/taps/'' @ ToString (tapId a) @ ''/streams'',
            options = None\<rparr>]
      \<and> map request_method (issued (tapPostgresData js) \<sigma> a s) = [''GET''])
 \<and> (type a = UPDATE_STREAM_TO_REPLICATE \<longrightarrow>
      map url (issued (tapPostgresData js) \<sigma> a s)
        = [''http://localhost:5000'' @ ''/targets/'' @ ToString (targetId a)
             @ ''/taps/'' @ ToString (tapId a) @ ''/streams/'' @ ToString (streamId a)]
      \<and> map request_method (issued (tapPostgresData js) \<sigma> a s) = [''PATCH'']
      \<and> map request_headers (issued (tapPostgresData js) \<sigma> a s)
          = [[(''Content-Type'', ''application/json'')]]
      \<and> map request_body (issued (tapPostgresData js) \<sigma> a s) = [Some (js (params a))])"
proof -
  have "issued (tapPostgresData js) \<sigma> a s = [req_of js 0 a]" if "type a = LOAD_STREAMS"
    using that by (intro issued_dispatch) (simp_all add: pat_def)
  moreover
  have "issued (tapPostgresData js) \<sigma> a s = [req_of js 1 a]" if "type a = UPDATE_STREAM_TO_REPLICATE"
    using that by (intro issued_dispatch) (simp_all add: pat_def)
  ultimately show ?thesis
    by (simp add: req_of_def load_request_def update_request_def request_method_def
        request_headers_def request_body_def)
qed

theorem request_shape_witness:
  "type load_t1 = LOAD_STREAMS
   \<and> issued (tapPostgresData (\<lambda>p. p)) () load_t1 (init :: example_middleware)
       = [\<lparr>url = ''http://localhost:5000/targets/t1/taps/tp1/streams'', options = None\<rparr>]
   \<and> map request_method (issued (tapPostgresData (\<lambda>p. p)) () load_t1 (init :: example_middleware))
       = [''GET'']
   \<and> type update_s1 = UPDATE_STREAM_TO_REPLICATE
   \<and> map url (issued (tapPostgresData (\<lambda>p. p)) () update_s1 (init :: example_middleware))
       = [''http://localhost:5000/targets/t1/taps/tp1/streams/s1'']
   \<and> map request_method (issued (tapPostgresData (\<lambda>p. p)) () update_s1 (init :: example_middleware))
       = [''PATCH'']
   \<and> map request_headers (issued (tapPostgresData (\<lambda>p. p)) () update_s1 (init :: example_middleware))
       = [[(''Content-Type'', ''application/json'')]]
   \<and> map request_body (issued (tapPostgresData (\<lambda>p. p)) () update_s1 (init :: example_middleware))
       = [Some ''INCREMENTAL'']"
proof -
  have h1: "type load_t1 = LOAD_STREAMS" by (simp add: load_t1_def)
  have h2: "type update_s1 = UPDATE_STREAM_TO_REPLICATE" by (simp add: update_s1_def)
  have v1: "targetId load_t1 = JString ''t1''" "tapId load_t1 = JString ''tp1''"
    by (simp_all add: load_t1_def)
  have v2: "targetId update_s1 = JString ''t1''" "tapId update_s1 = JString ''tp1''"
    "streamId update_s1 = JString ''s1''" "params update_s1 = ''INCREMENTAL''"
    by (simp_all add: update_s1_def)
  show ?thesis
    using h1 h2 v1 v2
      request_shape[of load_t1 "\<lambda>p. p" "()" "init :: example_middleware"]
      request_shape[of update_s1 "\<lambda>p. p" "()" "init :: example_middleware"]
    by (simp add: request_method_def)
qed

subsection \<open>C6: the collaborator's result is passed through\<close>



subsection \<open>C7: the request is a function of the trigger's fields\<close>

text \<open>
  Claim C7. Two actions that agree on \<open>type\<close>, \<open>targetId\<close>, \<open>tapId\<close>, \<open>streamId\<close> and
  \<open>params\<close> cause the same requests (URL, method, headers, body), whatever else the
  action objects carry, whatever the middleware and the store have been through.
\<close>

theorem request_determinism:
  assumes "type a = type b" "targetId a = targetId b" "tapId a = tapId b"
    "streamId a = streamId b" "params a = params b"
  shows "issued (tapPostgresData js) \<sigma> a s = issued (tapPostgresData js) \<sigma>' b s'"
proof -
  show ?thesis
  proof (cases a rule: kind_cases)
    case (1 w)
    with assms(1) have "type b = pat w" by simp
    with 1 have "issued (tapPostgresData js) \<sigma> a s = [req_of js w a]"
      "issued (tapPostgresData js) \<sigma>' b s' = [req_of js w b]"
      by (simp_all add: issued_dispatch)
    with assms show ?thesis by (simp add: req_of_def load_request_def update_request_def)
  next
    case 2
    with assms(1) show ?thesis by (simp add: issued_other)
  qed
qed

theorem request_determinism_witness:
  "type (tagged 1) = type (tagged 2) \<and> targetId (tagged 1) = targetId (tagged 2)
   \<and> tapId (tagged 1) = tapId (tagged 2) \<and> streamId (tagged 1) = streamId (tagged 2)
   \<and> params (tagged 1) = params (tagged 2) \<and> tagged 1 \<noteq> tagged 2
   \<and> issued (tapPostgresData (\<lambda>p. p)) (0::nat) (tagged 1)
        (init :: (string, nat, string, string, string, nat) middleware)
     = issued (tapPostgresData (\<lambda>p. p)) 5 (tagged 2)
        (run (tapPostgresData (\<lambda>p. p)) [(3, Dispatch (tagged 7))] init)"
proof -
  have h: "type (tagged 1) = type (tagged 2)" "targetId (tagged 1) = targetId (tagged 2)"
    "tapId (tagged 1) = tapId (tagged 2)" "streamId (tagged 1) = streamId (tagged 2)"
    "params (tagged 1) = params (tagged 2)"
    by (simp_all add: tagged_def)
  have d: "tagged 1 \<noteq> tagged 2" by (simp add: tagged_def)
  show ?thesis
    using h d
      request_determinism[OF h, of "\<lambda>p. p" "0::nat"
        "init :: (string, nat, string, string, string, nat) middleware" 5
        "run (tapPostgresData (\<lambda>p. p)) [(3, Dispatch (tagged 7))] init"]
    by simp
qed

subsection \<open>C8: no validation before the call\<close>

text \<open>
  Claim C8 says that for every trigger, however malformed, the request is still issued
  and no failure outcome is put before the network call. The update worker evaluates
  \<^verbatim>\<open>JSON.stringify(action.params)\<close> inside the \<^verbatim>\<open>try\<close> block before the call is yielded:
  for \<open>params\<close> the encoder throws on, no request is issued and the error event is put
  at the dispatch.
\<close>

theorem unencodable_params_counterexample:
  "type update_cyclic = UPDATE_STREAM_TO_REPLICATE
   \<and> issued_throwing (\<lambda>_. None) (tapPostgresData_throwing stand_in_stringify) () update_cyclic
        (init :: example_middleware) = []
   \<and> emitted (step_throwing (\<lambda>_. None) (tapPostgresData_throwing stand_in_stringify)
        ((), Dispatch update_cyclic) (init :: example_middleware))
     = [(0, updateStreamToReplicateError ''TypeError'')]"
  by (simp add: eval eval_throwing)

text \<open>
  Claim C8 as amended. For every trigger whose \<open>targetId\<close>, \<open>tapId\<close> and \<open>streamId\<close>
  convert to text without throwing (an absent or empty one included) and, for an
  update, whose \<open>params\<close> the encoder accepts, dispatched while the saga is running: no
  action is put at the dispatch and the request is issued, with the fields converted to
  text in the URL as they are; an absent field reads \<^verbatim>\<open>undefined\<close>, an empty one
  contributes nothing. There is no validation of the fields.
\<close>

theorem no_precondition_enforcement:
  assumes "type a = LOAD_STREAMS \<or> type a = UPDATE_STREAM_TO_REPLICATE \<and> je (params a) = Inr b"
    and "uncaught s = []"
  shows "emitted (step_throwing d (tapPostgresData_throwing je) (\<sigma>, Dispatch a) s) = emitted s
       \<and> map url (issued_throwing d (tapPostgresData_throwing je) \<sigma> a s)
           = [''http://localhost:5000/targets/'' @ ToString (targetId a)
                @ ''/taps/'' @ ToString (tapId a)
                @ (if type a = LOAD_STREAMS then ''/streams''
                   else ''/streams/'' @ ToString (streamId a))]
       \<and> ToString JUndefined = ''undefined''
       \<and> ToString (JString []) = []"
proof -
  from assms(1) show ?thesis
  proof
    assume ty: "type a = LOAD_STREAMS"
    then have "type a = pat 0" "goes_out je 0 a (load_request a)"
      by (simp_all add: pat_def goes_out_def)
    note sd = dispatch_out[where je=je and a=a and s=s and d=d and \<sigma>=\<sigma>, OF assms(2) this]
    show ?thesis unfolding issued_throwing_def sd using ty by (simp add: load_request_def)
  next
    assume u: "type a = UPDATE_STREAM_TO_REPLICATE \<and> je (params a) = Inr b"
    then have "type a = pat 1" "goes_out je 1 a (update_request (\<lambda>_. b) a)"
      by (simp_all add: pat_def goes_out_def)
    note sd = dispatch_out[where je=je and a=a and s=s and d=d and \<sigma>=\<sigma>, OF assms(2) this]
    show ?thesis unfolding issued_throwing_def sd using u by (simp add: update_request_def)
  qed
qed

theorem no_precondition_enforcement_witness:
  "(type malformed = LOAD_STREAMS
      \<or> type malformed = UPDATE_STREAM_TO_REPLICATE \<and> stand_in_stringify (params malformed) = Inr [])
   \<and> uncaught (init :: example_middleware) = []
   \<and> emitted (step_throwing (\<lambda>_. None) (tapPostgresData_throwing stand_in_stringify)
        ((), Dispatch malformed) (init :: example_middleware)) = []
   \<and> map url (issued_throwing (\<lambda>_. None) (tapPostgresData_throwing stand_in_stringify) () malformed
        (init :: example_middleware))
       = [''http://localhost:5000/targets/undefined/taps//streams/undefined'']"
proof -
  have h: "type malformed = LOAD_STREAMS
      \<or> type malformed = UPDATE_STREAM_TO_REPLICATE \<and> stand_in_stringify (params malformed) = Inr []"
    by (simp add: malformed_def stand_in_stringify_def)
  have al: "uncaught (init :: example_middleware) = []" by (simp add: init_def)
  have v: "type malformed \<noteq> LOAD_STREAMS" "targetId malformed = JUndefined"
    "tapId malformed = JString []" "streamId malformed = JUndefined"
    by (simp_all add: malformed_def)
  have e: "emitted (init :: example_middleware) = []" by (simp add: init_def)
  show ?thesis
    using h al v e no_precondition_enforcement[where je=stand_in_stringify and a=malformed
        and d="\<lambda>_. None" and \<sigma>="()", OF h al]
    by simp
qed

subsection \<open>C9: the base of the URL is fixed\<close>

text \<open>
  Claim C9. Every request the saga ever issues, for either kind of trigger, has a URL
  that starts with the literal \<^verbatim>\<open>http://localhost:5000\<close>.
\<close>

theorem hardcoded_base:
  assumes "(t, req) \<in> set (requests (run (tapPostgresData js) tr init))"
  shows "prefix ''http://localhost:5000'' (url req)"
proof -
  have "base_ok (run (tapPostgresData js) tr init)"
    by (rule base_ok_run[OF consistent_init]) (simp add: base_ok_def init_def)
  with assms show ?thesis unfolding base_ok_def by force
qed

theorem hardcoded_base_witness:
  "(0, \<lparr>url = ''http://localhost:5000/targets/t1/taps/tp1/streams'', options = None\<rparr>)
     \<in> set (requests (run (tapPostgresData (\<lambda>p. p)) [((), Dispatch load_t1)]
               (init :: example_middleware)))
   \<and> prefix ''http://localhost:5000''
        (url (\<lparr>url = ''http://localhost:5000/targets/t1/taps/tp1/streams'',
                      options = None\<rparr> :: string request))"
proof -
  have h: "(0, \<lparr>url = ''http://localhost:5000/targets/t1/taps/tp1/streams'', options = None\<rparr>)
     \<in> set (requests (run (tapPostgresData (\<lambda>p. p)) [((), Dispatch load_t1)]
               (init :: example_middleware)))"
    by (simp add: eval)
  show ?thesis
    using h hardcoded_base[OF h] by simp
qed

subsection \<open>C10: the store state does not matter\<close>

text \<open>
  Claim C10. Two runs that see the same events (the same actions dispatched, the same
  calls settled with the same results) put the same actions and issue the same
  requests, whatever the store states the steps of either run see.
\<close>

theorem store_noninterference:
  fixes tr tr' :: "('st \<times> ('p, 'x, 'v, 'e) event) list"
  assumes "map snd tr = map snd tr'"
  shows "emitted (run (tapPostgresData js) tr init) = emitted (run (tapPostgresData js) tr' init)
       \<and> requests (run (tapPostgresData js) tr init) = requests (run (tapPostgresData js) tr' init)"
proof -
  have "run (tapPostgresData js) tr init = run (tapPostgresData js) tr' init"
    using consistent_init assms by (rule run_store_indep)
  then show ?thesis by simp
qed

theorem store_noninterference_witness:
  "map snd [(0::nat, Dispatch load_t1), (1, Settle 0 (Inr ''A''))]
     = map snd [(7::nat, Dispatch load_t1), (9, Settle 0 (Inr ''A''))]
   \<and> emitted (run (tapPostgresData (\<lambda>p. p)) [(0, Dispatch load_t1), (1, Settle 0 (Inr ''A''))]
        (init :: (string, unit, string, string, string, nat) middleware))
     = emitted (run (tapPostgresData (\<lambda>p. p)) [(7, Dispatch load_t1), (9, Settle 0 (Inr ''A''))]
        (init :: (string, unit, string, string, string, nat) middleware))"
proof -
  have h: "map snd [(0::nat, Dispatch load_t1), (1, Settle 0 (Inr ''A'' :: string + string))]
     = map snd [(7::nat, Dispatch load_t1), (9, Settle 0 (Inr ''A''))]"
    by simp
  show ?thesis
    using h store_noninterference[OF h, of "\<lambda>p. p"] by simp
qed

end
